theory Spec2Isabelle
  imports Main
begin

text \<open>
  A model of the multi-view synchronisation engine of the Jira terminal client and proofs
  about it. The definitions follow three source files, named as the repository's layout
  names them: \<open>jira-client.ts\<close> (\<open>splitOrderBy\<close>, \<open>injectProjectConstraintAtEnd\<close>, the
  client), \<open>index.tsx\<close> (\<open>validateConfig\<close>, the hooks of \<open>App\<close>, \<open>trackNewIssues\<close>,
  \<open>fetchAllTabs\<close>, the activity poller, \<open>handleSettingsSave\<close>, \<open>SettingsModal\<close>) and
  \<open>config-wizard.ts\<close> (\<open>removeView\<close>). Asynchronous calls are modelled as if they ended at
  once: one call of a function below is one run of the source function from its call to the
  settling of its promise, with no other callback in between.
\<close>

section \<open>Strings of the program\<close>

text \<open>
  A JavaScript string is a sequence of UTF-16 code units. A code unit is modelled by its
  number, a string by the list of its code units; \<open>u\<close> turns a literal into such a list.
\<close>

type_synonym jsstring = "nat list"

definition u :: "string \<Rightarrow> jsstring" where
  "u s = map of_char s"

text \<open>
  The class \<open>\s\<close> of a regular expression, which is also what \<open>String.prototype.trim\<close>
  strips and what \<open>parseInt\<close> skips: TAB, LF, VT, FF, CR, SPACE, NBSP, U+1680, U+2000 to
  U+200A, LS, PS, U+202F, U+205F, U+3000 and U+FEFF.
\<close>

definition js_space :: "nat \<Rightarrow> bool" where
  "js_space c = ((9 \<le> c \<and> c \<le> 13) \<or> c = 32 \<or> c = 160 \<or> c = 5760
      \<or> (8192 \<le> c \<and> c \<le> 8202) \<or> c = 8232 \<or> c = 8233 \<or> c = 8239 \<or> c = 8287
      \<or> c = 12288 \<or> c = 65279)"

text \<open>The class \<open>\w\<close> without the unicode flag: \<open>[A-Za-z0-9_]\<close>.\<close>

definition is_word_char :: "nat \<Rightarrow> bool" where
  "is_word_char c = ((48 \<le> c \<and> c \<le> 57) \<or> (65 \<le> c \<and> c \<le> 90) \<or> c = 95 \<or> (97 \<le> c \<and> c \<le> 122))"

definition trim :: "jsstring \<Rightarrow> jsstring" where
  "trim s = rev (dropWhile js_space (rev (dropWhile js_space s)))"

text \<open>The decimal digits of a natural number.\<close>

fun show_nat :: "nat \<Rightarrow> jsstring" where
  "show_nat n = (if n < 10 then [48 + n] else show_nat (n div 10) @ [48 + n mod 10])"

text \<open>
  A number of the program is a double. The numbers met here are integers, modelled by
  \<open>int\<close>; every integer of magnitude up to \<open>2^53\<close> is a double, and a larger one is
  rounded to the nearest integer with 53 significant bits, a tie going to the even one.
  \<open>Infinity\<close>, which the program gets from \<open>2^1024 - 2^970\<close> on, has no counterpart in
  \<open>int\<close>: there the rounded integer stands for it, positive as \<open>Infinity\<close> is.
\<close>

fun bit_count :: "nat \<Rightarrow> nat" where
  "bit_count n = (if n = 0 then 0 else Suc (bit_count (n div 2)))"

definition nearest_double :: "nat \<Rightarrow> nat" where
  "nearest_double n =
     (let b = bit_count n
      in if b \<le> 53 then n
         else let sh = b - 53; q = n div 2 ^ sh; r = n mod 2 ^ sh; half = 2 ^ (sh - 1)
              in (if r > half \<or> (r = half \<and> odd q) then q + 1 else q) * 2 ^ sh)"

text \<open>
  \<open>String(x)\<close> for an integer \<open>x\<close>: the digits of the integer with the fewest significant
  digits that reads back as \<open>x\<close>, the closest to \<open>x\<close> when two do and the one of even last
  digit when both are as close; written in full when it has at most 21 digits, with an
  exponent otherwise. Below \<open>2^53\<close> these are the decimal digits of \<open>x\<close>.
  \<open>shortest_at k x\<close> is the candidate of \<open>k\<close> significant digits, if there is one.
\<close>

definition shortest_at :: "nat \<Rightarrow> nat \<Rightarrow> nat option" where
  "shortest_at k x =
     (let e = length (show_nat x) - k;
          lo = (x div 10 ^ e) * 10 ^ e;
          hi = lo + 10 ^ e;
          okl = (nearest_double lo = x);
          okh = (nearest_double hi = x)
      in if okl \<and> okh
         then Some (if x - lo < hi - x then lo
                    else if hi - x < x - lo then hi
                    else if even (x div 10 ^ e) then lo else hi)
         else if okl then Some lo
         else if okh then Some hi
         else None)"

definition shortest_value :: "nat \<Rightarrow> nat" where
  "shortest_value x =
     (case List.map_filter (\<lambda>k. shortest_at k x) [1..<length (show_nat x)] of
        [] \<Rightarrow> x
      | v # _ \<Rightarrow> v)"

definition numberToString :: "int \<Rightarrow> jsstring" where
  "numberToString x =
     (let ds = show_nat (shortest_value (nat \<bar>x\<bar>));
          n = length ds;
          s = rev (dropWhile (\<lambda>c. c = 48) (rev ds));
          body = (if n \<le> 21 then ds
                  else hd s # (if length s > 1 then 46 # tl s else []) @ [101, 43] @ show_nat (n - 1))
      in if x < 0 then 45 # body else body)"

text \<open>
  \<open>parseInt(s, 10)\<close>: leading white space is skipped, a sign is read, then the longest
  run of decimal digits, whose value is rounded to a double; \<open>None\<close> is \<open>NaN\<close> (no digit
  there).
\<close>

definition is_digit :: "nat \<Rightarrow> bool" where
  "is_digit c = (48 \<le> c \<and> c \<le> 57)"

definition digits_value :: "jsstring \<Rightarrow> nat" where
  "digits_value ds = foldl (\<lambda>a d. 10 * a + (d - 48)) 0 ds"

definition parseInt :: "jsstring \<Rightarrow> int option" where
  "parseInt s =
     (let t = dropWhile js_space s;
          negative = (case t of [] \<Rightarrow> False | c # _ \<Rightarrow> c = 45);
          r = (case t of [] \<Rightarrow> [] | c # cs \<Rightarrow> if c = 45 \<or> c = 43 then cs else t);
          ds = takeWhile is_digit r
      in if ds = [] then None
         else Some (if negative then - int (nearest_double (digits_value ds))
                    else int (nearest_double (digits_value ds))))"

section \<open>jira-client.ts: splitOrderBy and injectProjectConstraintAtEnd\<close>

text \<open>
  The pattern is \<open>/\border\s+by\b/i\<close>. With the flag \<open>i\<close> and without the flag \<open>u\<close>, a
  pattern letter matches itself and its ASCII upper-case form, and no code unit from 128 on.
\<close>

definition to_upper_ascii :: "nat \<Rightarrow> nat" where
  "to_upper_ascii c = (if 97 \<le> c \<and> c \<le> 122 then c - 32 else c)"

definition ci_match :: "nat \<Rightarrow> nat \<Rightarrow> bool" where
  "ci_match p c = (to_upper_ascii c = to_upper_ascii p)"

fun match_lit :: "jsstring \<Rightarrow> jsstring \<Rightarrow> bool" where
  "match_lit [] s = True"
| "match_lit (p # ps) [] = False"
| "match_lit (p # ps) (c # cs) = (ci_match p c \<and> match_lit ps cs)"

text \<open>The assertion \<open>\b\<close> at position \<open>i\<close> of \<open>s\<close>.\<close>

definition word_boundary :: "jsstring \<Rightarrow> nat \<Rightarrow> bool" where
  "word_boundary s i =
     ((0 < i \<and> i \<le> length s \<and> is_word_char (s ! (i - 1))) \<noteq> (i < length s \<and> is_word_char (s ! i)))"

text \<open>
  A match of the pattern that starts at position \<open>i\<close>. The greedy \<open>\s+\<close> takes the whole
  run of white space after \<open>order\<close>; giving some of it back cannot help, since \<open>b\<close> is
  no white space.
\<close>

definition order_by_at :: "jsstring \<Rightarrow> nat \<Rightarrow> bool" where
  "order_by_at s i =
     (let k = i + 5 + length (takeWhile js_space (drop (i + 5) s))
      in word_boundary s i \<and> match_lit (u ''order'') (drop i s)
         \<and> i + 5 < k \<and> match_lit (u ''by'') (drop k s) \<and> word_boundary s (k + 2))"

text \<open>\<open>RegExp.prototype.exec\<close>: the index of the leftmost match, if there is one.\<close>

definition exec_order_by :: "jsstring \<Rightarrow> nat option" where
  "exec_order_by s = find (order_by_at s) [0..<Suc (length s)]"

record OrderBySplit =
  conditions :: jsstring
  orderBy :: jsstring

definition splitOrderBy :: "jsstring \<Rightarrow> OrderBySplit" where
  "splitOrderBy jql =
     (case exec_order_by jql of
        None \<Rightarrow> \<lparr>conditions = trim jql, orderBy = []\<rparr>
      | Some index \<Rightarrow> \<lparr>conditions = trim (take index jql), orderBy = trim (drop index jql)\<rparr>)"

definition injectProjectConstraintAtEnd :: "jsstring \<Rightarrow> jsstring \<Rightarrow> jsstring" where
  "injectProjectConstraintAtEnd customJql project =
     (let s = splitOrderBy customJql;
          withProject = (if length (conditions s) = 0 then u ''project = '' @ project
                         else u ''('' @ conditions s @ u '') AND project = '' @ project)
      in if length (orderBy s) = 0 then withProject else withProject @ u '' '' @ orderBy s)"

text \<open>
  The specification's words for the place of the split: the keyword \<open>ORDER BY\<close>, in any
  letter case, the two words apart by white space and each a whole word. This predicate is
  the one definition taken from the specification; it is compared with \<open>order_by_at\<close>.
\<close>

definition order_by_keyword_at :: "jsstring \<Rightarrow> nat \<Rightarrow> bool" where
  "order_by_keyword_at s i =
     (\<exists>a w b rest. i \<le> length s \<and> drop i s = a @ w @ b @ rest
        \<and> map to_upper_ascii a = u ''ORDER''
        \<and> w \<noteq> [] \<and> list_all js_space w
        \<and> map to_upper_ascii b = u ''BY''
        \<and> word_boundary s i \<and> word_boundary s (i + length a + length w + length b))"

section \<open>jira-client.ts: the Jira client\<close>

text \<open>
  Of an issue the engine reads the \<open>id\<close> (here \<open>issueId\<close>) and the \<open>key\<close>; the display
  fields stand for \<open>fields.summary\<close> and the rest, which no operation below inspects.
\<close>

record JiraIssue =
  issueId :: jsstring
  key :: jsstring
  summary :: jsstring

record JqlParseResult =
  parsedQuery :: jsstring
  parsedErrors :: "jsstring list option"
  parsedWarnings :: "jsstring list option"

record JqlValidationResult =
  query :: jsstring
  valid :: bool
  errors :: "jsstring list"
  warnings :: "jsstring list"

text \<open>
  The world outside the process. \<open>hasCredentials\<close>: both \<open>JIRA_API_KEY\<close> and
  \<open>JIRA_EMAIL\<close> are set, without which \<open>new JiraClient\<close> throws. \<open>searchIssues n q\<close>: what
  the paginated search of the scoped query \<open>q\<close> gives when it is the call number \<open>n\<close> of the
  process, the issues or the message of the error thrown. \<open>parseJql\<close>: the answer of
  \<open>/jql/parse\<close> to a batch of queries. \<open>clipboard\<close>: what \<open>clipboard.readSync\<close> returns,
  \<open>None\<close> when it throws.
\<close>

record Env =
  hasCredentials :: bool
  searchIssues :: "nat \<Rightarrow> jsstring \<Rightarrow> jsstring + JiraIssue list"
  parseJql :: "jsstring list \<Rightarrow> jsstring + JqlParseResult list"
  clipboard :: "jsstring option"

definition missingCredentials :: jsstring where
  "missingCredentials = u ''Missing required environment variables: JIRA_API_KEY, JIRA_EMAIL''"

text \<open>\<open>JiraClient.validateJql\<close>: a result is valid when it reports no error.\<close>

definition JiraClient_validateJql :: "Env \<Rightarrow> jsstring list \<Rightarrow> jsstring + JqlValidationResult list" where
  "JiraClient_validateJql env queries =
     (case parseJql env queries of
        Inl message \<Rightarrow> Inl message
      | Inr results \<Rightarrow>
          Inr (map (\<lambda>r. \<lparr>query = parsedQuery r,
                          valid = (case parsedErrors r of None \<Rightarrow> True | Some es \<Rightarrow> length es = 0),
                          errors = (case parsedErrors r of None \<Rightarrow> [] | Some es \<Rightarrow> es),
                          warnings = (case parsedWarnings r of None \<Rightarrow> [] | Some ws \<Rightarrow> ws)\<rparr>)
                   results))"

definition searchWithProjectConstraint ::
    "Env \<Rightarrow> nat \<Rightarrow> jsstring \<Rightarrow> jsstring \<Rightarrow> jsstring + JiraIssue list" where
  "searchWithProjectConstraint env n project customJql =
     searchIssues env n (injectProjectConstraintAtEnd customJql project)"

section \<open>index.tsx: configuration\<close>

record View =
  name :: jsstring
  jql :: jsstring

record ActivityConfig =
  enabled :: bool
  pollingIntervalMinutes :: int
  activityJql :: jsstring

record Config =
  project :: jsstring
  domain :: jsstring
  views :: "View list"
  activity :: "ActivityConfig option"

definition ISSUE_CACHE_TTL_MS :: int where
  "ISSUE_CACHE_TTL_MS = 30000"

text \<open>
  \<open>validateConfig\<close> pushes its messages in this order: project, domain, the views (for
  each view its name, then its query), the activity section.
\<close>

definition viewMessages :: "nat \<Rightarrow> View \<Rightarrow> jsstring list" where
  "viewMessages index view =
     (let viewName = trim (name view);
          viewJql = trim (jql view);
          label = (if viewName \<noteq> [] then u ''View \"'' @ viewName @ u ''\"''
                   else u ''View #'' @ show_nat (index + 1))
      in (if viewName = [] then [label @ u '' is missing a name.''] else [])
         @ (if viewJql = [] then [label @ u '' is missing a JQL query.''] else []))"

definition intervalMessage :: jsstring where
  "intervalMessage = u ''Activity polling interval must be a positive number.''"

definition activityJqlMessage :: jsstring where
  "activityJqlMessage = u ''Activity JQL query is required when activity is enabled.''"

definition activityMessages :: "ActivityConfig \<Rightarrow> jsstring list" where
  "activityMessages a =
     (let interval = pollingIntervalMinutes a
      in (if interval = 0 \<or> interval \<le> 0 then [intervalMessage] else [])
         @ (if trim (activityJql a) = [] then [activityJqlMessage] else []))"

definition validateConfig :: "Config \<Rightarrow> jsstring list" where
  "validateConfig config =
     (if trim (project config) = [] then [u ''Missing project key in config.json.''] else [])
     @ (if trim (domain config) = [] then [u ''Missing domain in config.json.''] else [])
     @ (if length (views config) = 0 then [u ''At least one view is required in config.json.'']
        else concat (map (\<lambda>(index, view). viewMessages index view) (enumerate 0 (views config))))
     @ (case activity config of
          None \<Rightarrow> []
        | Some a \<Rightarrow> if enabled a then activityMessages a else [])"

section \<open>index.tsx: the state of App\<close>

record ViewValidation =
  vName :: jsstring
  vJql :: jsstring
  vValid :: bool
  vErrors :: "jsstring list"
  vWarnings :: "jsstring list"

record IssueCacheEntry =
  issues :: "JiraIssue list"
  fetchedAt :: int

type_synonym IssueCache = "nat \<rightharpoonup> IssueCacheEntry"

text \<open>
  The hooks of \<open>App\<close> that the engine reads or writes: the \<open>useState\<close> values, the
  \<open>useRef\<close> cells (\<open>knownIssueIds\<close>, \<open>jiraClient\<close>: whether a client has been built,
  \<open>validationDone\<close>, \<open>issueCacheRef\<close>), and three traces of what leaves the process:
  \<open>configFile\<close> (what \<open>saveConfig\<close> wrote last), \<open>remoteCalls\<close> (each search sent, with the
  tab it was sent for) and \<open>console\<close> (the lines of \<open>console.error\<close>).
\<close>

record App =
  config :: Config
  issueCache :: IssueCache
  loading :: bool
  loadingProgress :: jsstring
  error :: "jsstring option"
  validationErrors :: "ViewValidation list"
  newIssueIds :: "jsstring set"
  lastRefresh :: int
  showSettings :: bool
  knownIssueIds :: "jsstring set"
  jiraClient :: bool
  validationDone :: bool
  issueCacheRef :: IssueCache
  configFile :: "Config option"
  remoteCalls :: "(nat \<times> jsstring) list"
  console :: "jsstring list"

definition activityEnabled :: "Config \<Rightarrow> bool" where
  "activityEnabled c = (case activity c of None \<Rightarrow> False | Some a \<Rightarrow> enabled a)"

definition tabs :: "Config \<Rightarrow> jsstring list" where
  "tabs c = map name (views c) @ (if activityEnabled c then [u ''Activity''] else [])"

definition activityTabIndex :: "Config \<Rightarrow> int" where
  "activityTabIndex c = (if activityEnabled c then int (length (tabs c)) - 1 else - 1)"

text \<open>
  \<open>fetchIssuesForTab\<close>: builds the client on first use, then searches with the query of
  the activity or of the view; a tab with no view gives no issue and no call.
\<close>

definition fetchIssuesForTab :: "Env \<Rightarrow> nat \<Rightarrow> App \<Rightarrow> (jsstring + JiraIssue list) \<times> App" where
  "fetchIssuesForTab env tabIndex st =
     (if \<not> jiraClient st \<and> \<not> hasCredentials env then (Inl missingCredentials, st)
      else
        let st1 = st\<lparr>jiraClient := True\<rparr>;
            n = length (remoteCalls st1)
        in case (if int tabIndex = activityTabIndex (config st1) then activity (config st1) else None) of
             Some a \<Rightarrow>
               (searchWithProjectConstraint env n (project (config st1)) (activityJql a),
                st1\<lparr>remoteCalls := remoteCalls st1
                       @ [(tabIndex, injectProjectConstraintAtEnd (activityJql a) (project (config st1)))]\<rparr>)
           | None \<Rightarrow>
               if tabIndex < length (views (config st1))
               then (searchWithProjectConstraint env n (project (config st1))
                       (jql (views (config st1) ! tabIndex)),
                     st1\<lparr>remoteCalls := remoteCalls st1
                            @ [(tabIndex, injectProjectConstraintAtEnd
                                  (jql (views (config st1) ! tabIndex)) (project (config st1)))]\<rparr>)
               else (Inr [], st1))"

text \<open>
  The loop of \<open>trackNewIssues\<close> over the issues, on the pair of \<open>newIds\<close> and
  \<open>knownIssueIds.current\<close>; then the update of \<open>newIssueIds\<close>, made only when \<open>newIds\<close>
  is not empty.
\<close>

fun trackLoop :: "JiraIssue list \<Rightarrow> bool \<Rightarrow> jsstring list \<times> jsstring set \<Rightarrow> jsstring list \<times> jsstring set" where
  "trackLoop [] isInitial (newIds, known) = (newIds, known)"
| "trackLoop (issue # rest) isInitial (newIds, known) =
     trackLoop rest isInitial
       (if \<not> isInitial \<and> issueId issue \<notin> known then newIds @ [issueId issue] else newIds,
        insert (issueId issue) known)"

definition trackNewIssues :: "JiraIssue list \<Rightarrow> bool \<Rightarrow> App \<Rightarrow> App" where
  "trackNewIssues is isInitial st =
     (case trackLoop is isInitial ([], knownIssueIds st) of
        (newIds, known) \<Rightarrow>
          (if length newIds > 0
           then st\<lparr>knownIssueIds := known, newIssueIds := newIssueIds st \<union> set newIds\<rparr>
           else st\<lparr>knownIssueIds := known\<rparr>))"

text \<open>The progress line \<open>Loading ${tabs[i]}... (${i + 1}/${tabs.length})\<close>.\<close>

definition loadingText :: "jsstring list \<Rightarrow> nat \<Rightarrow> jsstring" where
  "loadingText ts i =
     u ''Loading '' @ (if i < length ts then ts ! i else u ''undefined'')
     @ u ''... ('' @ show_nat (i + 1) @ u ''/'' @ show_nat (length ts) @ u '')''"

text \<open>The test \<open>isFresh\<close> of \<open>fetchAllTabs\<close>, on the entry found in the cache ref.\<close>

definition isFresh :: "bool \<Rightarrow> bool \<Rightarrow> int \<Rightarrow> IssueCacheEntry option \<Rightarrow> bool" where
  "isFresh force isInitial now cacheEntry =
     (\<not> force \<and> \<not> isInitial
      \<and> (case cacheEntry of None \<Rightarrow> False | Some e \<Rightarrow> now - fetchedAt e < ISSUE_CACHE_TTL_MS))"

text \<open>
  The loop of \<open>fetchAllTabs\<close> over the tab indices still to visit, on \<open>newCache\<close>,
  \<open>didFetch\<close> and the state. The first component of the result is the message of the
  exception that left the loop, if one did; what the loop had done by then stays done.
\<close>

fun fetchLoop ::
    "Env \<Rightarrow> int \<Rightarrow> bool \<Rightarrow> bool \<Rightarrow> nat list \<Rightarrow> IssueCache \<times> bool \<times> App
       \<Rightarrow> jsstring option \<times> IssueCache \<times> bool \<times> App" where
  "fetchLoop env now isInitial force [] acc = (None, acc)"
| "fetchLoop env now isInitial force (i # rest) (newCache, didFetch, st) =
     (if int i = activityTabIndex (config st)
      then fetchLoop env now isInitial force rest (newCache, didFetch, st)
      else
        let cacheEntry = issueCacheRef st i
        in if isFresh force isInitial now cacheEntry
           then fetchLoop env now isInitial force rest (newCache(i := cacheEntry), didFetch, st)
           else
             let st1 = st\<lparr>loadingProgress := loadingText (tabs (config st)) i\<rparr>
             in case fetchIssuesForTab env i st1 of
                  (Inl message, st2) \<Rightarrow> (Some message, newCache, didFetch, st2)
                | (Inr is, st2) \<Rightarrow>
                    fetchLoop env now isInitial force rest
                      (newCache(i \<mapsto> \<lparr>issues = is, fetchedAt = now\<rparr>), True,
                       trackNewIssues is isInitial st2))"

text \<open>
  \<open>fetchAllTabs\<close>, with \<open>now\<close> the clock read at its start and \<open>doneAt\<close> the clock read
  for \<open>setLastRefresh\<close>. The \<open>catch\<close> sets \<open>error\<close> and leaves the cache as it was.
\<close>

definition fetchAllTabs :: "Env \<Rightarrow> int \<Rightarrow> int \<Rightarrow> bool \<Rightarrow> bool \<Rightarrow> App \<Rightarrow> App" where
  "fetchAllTabs env now doneAt isInitial force st =
     (case fetchLoop env now isInitial force [0..<length (tabs (config st))] (Map.empty, False, st) of
        (None, newCache, didFetch, st') \<Rightarrow>
          st'\<lparr>issueCache := issueCache st' ++ newCache,
              lastRefresh := (if didFetch \<or> isInitial then doneAt else lastRefresh st'),
              loading := False\<rparr>
      | (Some message, newCache, didFetch, st') \<Rightarrow>
          st'\<lparr>error := Some message, loading := False\<rparr>)"

text \<open>
  The activity effect: its guards (the effect returns when the activity is not enabled, when
  its tab index is \<open>-1\<close> or when there is no activity section, \<open>fetchActivityIssues\<close> when no
  client has been built), then the search; the \<open>catch\<close> writes one line to the console and
  sets no state.
\<close>

definition fetchActivityIssues :: "Env \<Rightarrow> int \<Rightarrow> bool \<Rightarrow> App \<Rightarrow> App" where
  "fetchActivityIssues env now isInitial st =
     (case activity (config st) of
        None \<Rightarrow> st
      | Some a \<Rightarrow>
          if activityEnabled (config st) \<and> activityTabIndex (config st) \<noteq> - 1 \<and> jiraClient st
          then
            let q = injectProjectConstraintAtEnd (activityJql a) (project (config st));
                tab = nat (activityTabIndex (config st));
                st1 = st\<lparr>remoteCalls := remoteCalls st @ [(tab, q)]\<rparr>
            in case searchWithProjectConstraint env (length (remoteCalls st)) (project (config st))
                      (activityJql a) of
                 Inl message \<Rightarrow> st1\<lparr>console := console st1 @ [u ''Activity refresh failed: '' @ message]\<rparr>
               | Inr is \<Rightarrow>
                   (let st2 = trackNewIssues is isInitial st1
                    in st2\<lparr>issueCache := (issueCache st2)(tab \<mapsto> \<lparr>issues = is, fetchedAt = now\<rparr>)\<rparr>)
          else st)"

text \<open>The effect that copies the cache into its ref after a render.\<close>

definition syncIssueCacheRef :: "App \<Rightarrow> App" where
  "syncIssueCacheRef st = st\<lparr>issueCacheRef := issueCache st\<rparr>"

definition handleSettingsSave :: "Config \<Rightarrow> App \<Rightarrow> App" where
  "handleSettingsSave newConfig st =
     st\<lparr>configFile := Some newConfig, config := newConfig, showSettings := False,
        loading := True, validationDone := False, issueCache := Map.empty, newIssueIds := {}\<rparr>"

text \<open>The key \<open>c\<close> of the main view: \<open>setNewIssueIds(new Set())\<close>.\<close>

definition clearHighlights :: "App \<Rightarrow> App" where
  "clearHighlights st = st\<lparr>newIssueIds := {}\<rparr>"

text \<open>
  What \<open>App\<close> renders: the loading box, the validation errors, the error box, which
  replaces the tabs and the issue list and offers only to exit, or the main view.
\<close>

datatype Screen = LoadingScreen | ValidationErrorScreen | ErrorScreen jsstring | MainScreen

definition render :: "App \<Rightarrow> Screen" where
  "render st =
     (if loading st then LoadingScreen
      else if length (validationErrors st) > 0 then ValidationErrorScreen
      else case error st of
             None \<Rightarrow> MainScreen
           | Some message \<Rightarrow> if message = [] then MainScreen else ErrorScreen message)"

text \<open>
  What can happen to \<open>App\<close> once it runs: the tick of the 60 s timer
  (\<open>fetchAllTabs(false)\<close>), the key \<open>r\<close> (\<open>setLoading(true); fetchAllTabs(false, true)\<close>),
  the load after a validation (\<open>fetchAllTabs(true)\<close>), a run of the activity poller, the
  key \<open>c\<close>, a save of the settings, and the effect after a render.
\<close>

datatype AppEvent =
    GlobalRefresh Env int int
  | ManualRefresh Env int int
  | InitialLoad Env int int
  | ActivityRefresh Env int bool
  | ClearKey
  | SettingsSave Config
  | Rendered

fun step :: "AppEvent \<Rightarrow> App \<Rightarrow> App" where
  "step (GlobalRefresh env now doneAt) st = fetchAllTabs env now doneAt False False st"
| "step (ManualRefresh env now doneAt) st = fetchAllTabs env now doneAt False True (st\<lparr>loading := True\<rparr>)"
| "step (InitialLoad env now doneAt) st = fetchAllTabs env now doneAt True False st"
| "step (ActivityRefresh env now isInitial) st = fetchActivityIssues env now isInitial st"
| "step ClearKey st = clearHighlights st"
| "step (SettingsSave newConfig) st = handleSettingsSave newConfig st"
| "step Rendered st = syncIssueCacheRef st"

fun run :: "AppEvent list \<Rightarrow> App \<Rightarrow> App" where
  "run [] st = st"
| "run (e # es) st = run es (step e st)"

text \<open>The hooks of \<open>App\<close> at its first render, at the time \<open>t\<close>.\<close>

definition initialApp :: "Config \<Rightarrow> int \<Rightarrow> App" where
  "initialApp c t =
     \<lparr>config = c, issueCache = Map.empty, loading = True, loadingProgress = [], error = None,
      validationErrors = [], newIssueIds = {}, lastRefresh = t, showSettings = False,
      knownIssueIds = {}, jiraClient = False, validationDone = False, issueCacheRef = Map.empty,
      configFile = None, remoteCalls = [], console = []\<rparr>"

text \<open>
  \<open>grows st st'\<close>: from \<open>st\<close> to \<open>st'\<close> no identifier left the seen-id set, and every
  identifier highlighted in \<open>st'\<close> was highlighted in \<open>st\<close> or was not yet seen in \<open>st\<close>.
\<close>

definition grows :: "App \<Rightarrow> App \<Rightarrow> bool" where
  "grows st st' =
     (knownIssueIds st \<subseteq> knownIssueIds st'
      \<and> newIssueIds st' \<subseteq> newIssueIds st \<union> (knownIssueIds st' - knownIssueIds st))"

section \<open>index.tsx: SettingsModal\<close>

datatype SettingsMode = ModeMenu | ModeViews | ModeEditView | ModeActivity | ModeProject

datatype EditField = FieldName | FieldJql | FieldProject | FieldInterval | FieldActivityJql

record KeyEvent =
  keyName :: jsstring
  ctrl :: bool
  meta :: bool
  sequence :: jsstring

text \<open>
  The state of the modal: its \<open>useState\<close> hooks and, in \<open>activityKeys\<close>, which of its two
  key handlers \<open>settingsKeyHandler.current\<close> of \<open>App\<close> holds: the handler of the second
  effect when \<open>activityKeys\<close> is set, the handler of the first effect otherwise.
\<close>

record SettingsModal =
  mode :: SettingsMode
  menuIndex :: nat
  viewIndex :: nat
  fieldIndex :: nat
  editingConfig :: Config
  editField :: "EditField option"
  editValue :: jsstring
  cursorPos :: nat
  isNewView :: bool
  validationError :: "jsstring option"
  validating :: bool
  activityKeys :: bool

text \<open>
  What a key makes the modal ask of its surroundings: nothing, \<open>onSave\<close> with the
  draft, \<open>onClose\<close>, or the validation of a query, whose answer comes back later.
\<close>

datatype Signal = NoSignal | OnSave Config | OnClose | ValidateJql jsstring

text \<open>
  The state of a modal just opened: the draft is a deep copy of the configuration. At the
  mount the first effect registers its handler and the second, the mode being \<open>menu\<close>,
  registers none.
\<close>

definition openSettings :: "Config \<Rightarrow> SettingsModal" where
  "openSettings c =
     \<lparr>mode = ModeMenu, menuIndex = 0, viewIndex = 0, fieldIndex = 0, editingConfig = c,
      editField = None, editValue = [], cursorPos = 0, isNewView = False,
      validationError = None, validating = False, activityKeys = False\<rparr>"

definition startEditing :: "EditField \<Rightarrow> jsstring \<Rightarrow> SettingsModal \<Rightarrow> SettingsModal" where
  "startEditing field v st = st\<lparr>editField := Some field, editValue := v, cursorPos := length v\<rparr>"

definition clearEditState :: "SettingsModal \<Rightarrow> SettingsModal" where
  "clearEditState st = st\<lparr>editField := None, editValue := [], cursorPos := 0, validationError := None\<rparr>"

text \<open>
  The \<open>validateJql\<close> of the modal: the message to show, or \<open>None\<close> for a query that
  passes. An empty answer gives \<open>Invalid JQL\<close>; an exception gives its message.
\<close>

definition SettingsModal_validateJql :: "Env \<Rightarrow> Config \<Rightarrow> jsstring \<Rightarrow> jsstring option" where
  "SettingsModal_validateJql env c q =
     (if \<not> hasCredentials env then Some missingCredentials
      else case JiraClient_validateJql env [injectProjectConstraintAtEnd q (project c)] of
             Inl message \<Rightarrow> Some message
           | Inr [] \<Rightarrow> Some (u ''Invalid JQL'')
           | Inr (result # _) \<Rightarrow>
               if \<not> valid result
               then (case errors result of [] \<Rightarrow> Some (u ''Invalid JQL'') | e # _ \<Rightarrow> Some e)
               else None)"

text \<open>
  \<open>activity: { ...editingConfig.activity!, field: value }\<close>: with no activity section the
  spread adds nothing, so the other fields are \<open>undefined\<close>; they are read here as
  \<open>False\<close>, \<open>0\<close> and the empty string, as every test of the program reads them.
\<close>

definition activityOrEmpty :: "Config \<Rightarrow> ActivityConfig" where
  "activityOrEmpty c =
     (case activity c of
        None \<Rightarrow> \<lparr>enabled = False, pollingIntervalMinutes = 0, activityJql = []\<rparr>
      | Some a \<Rightarrow> a)"

definition applyEdit :: "SettingsModal \<Rightarrow> SettingsModal" where
  "applyEdit st =
     (let c = editingConfig st in
      if editField st = Some FieldProject
      then clearEditState (st\<lparr>editingConfig := c\<lparr>project := editValue st\<rparr>, mode := ModeMenu\<rparr>)
      else if editField st = Some FieldName \<and> mode st = ModeEditView
      then (if isNewView st
            then startEditing FieldJql []
                   (st\<lparr>viewIndex := length (views c @ [\<lparr>name = editValue st, jql = []\<rparr>]) - 1,
                       editingConfig := c\<lparr>views := views c @ [\<lparr>name = editValue st, jql = []\<rparr>]\<rparr>,
                       isNewView := False\<rparr>)
            else clearEditState
                   (st\<lparr>editingConfig :=
                         c\<lparr>views := (if viewIndex st < length (views c)
                                       then (views c)[viewIndex st :=
                                               (views c ! viewIndex st)\<lparr>name := editValue st\<rparr>]
                                       else views c)\<rparr>\<rparr>))
      else if editField st = Some FieldJql \<and> mode st = ModeEditView
      then clearEditState
             (st\<lparr>editingConfig :=
                   c\<lparr>views := (if viewIndex st < length (views c)
                                 then (views c)[viewIndex st :=
                                         (views c ! viewIndex st)\<lparr>jql := editValue st\<rparr>]
                                 else views c)\<rparr>\<rparr>)
      else if editField st = Some FieldInterval
      then (case parseInt (editValue st) of
              None \<Rightarrow> clearEditState st
            | Some interval \<Rightarrow>
                if interval > 0
                then clearEditState
                       (st\<lparr>editingConfig :=
                             c\<lparr>activity := Some ((activityOrEmpty c)\<lparr>pollingIntervalMinutes := interval\<rparr>)\<rparr>\<rparr>)
                else clearEditState st)
      else if editField st = Some FieldActivityJql
      then clearEditState
             (st\<lparr>editingConfig :=
                   c\<lparr>activity := Some ((activityOrEmpty c)\<lparr>activityJql := editValue st\<rparr>)\<rparr>\<rparr>)
      else clearEditState st)"

text \<open>
  The callback of the validation promise. \<open>if (error)\<close> tests the message for
  truthiness: \<open>null\<close> and the empty string both take the branch of \<open>applyEdit\<close>.
\<close>

definition onValidated :: "jsstring option \<Rightarrow> SettingsModal \<Rightarrow> SettingsModal" where
  "onValidated err st =
     (let st1 = st\<lparr>validating := False\<rparr>
      in case err of
           None \<Rightarrow> applyEdit st1
         | Some message \<Rightarrow> if message \<noteq> [] then st1\<lparr>validationError := Some message\<rparr> else applyEdit st1)"

definition handleMenuSelect :: "SettingsModal \<Rightarrow> SettingsModal \<times> Signal" where
  "handleMenuSelect st =
     (if menuIndex st = 0
      then (startEditing FieldProject (project (editingConfig st)) (st\<lparr>mode := ModeProject\<rparr>), NoSignal)
      else if menuIndex st = 1 then (st\<lparr>mode := ModeViews, viewIndex := 0\<rparr>, NoSignal)
      else if menuIndex st = 2 then (st\<lparr>mode := ModeActivity\<rparr>, NoSignal)
      else if menuIndex st = 3 then (st, OnSave (editingConfig st))
      else if menuIndex st = 4 then (st, OnClose)
      else (st, NoSignal))"

definition handleViewSelect :: "SettingsModal \<Rightarrow> SettingsModal" where
  "handleViewSelect st =
     (if viewIndex st = length (views (editingConfig st))
      then startEditing FieldName [] (st\<lparr>mode := ModeEditView, isNewView := True, fieldIndex := 0\<rparr>)
      else if viewIndex st = length (views (editingConfig st)) + 1 then st\<lparr>mode := ModeMenu\<rparr>
      else st\<lparr>mode := ModeEditView, isNewView := False, fieldIndex := 0\<rparr>)"

definition handleEditViewSelect :: "SettingsModal \<Rightarrow> SettingsModal" where
  "handleEditViewSelect st =
     (if viewIndex st < length (views (editingConfig st))
      then (if fieldIndex st = 0
            then startEditing FieldName (name (views (editingConfig st) ! viewIndex st)) st
            else startEditing FieldJql (jql (views (editingConfig st) ! viewIndex st)) st)
      else st)"

definition defaultActivityJql :: jsstring where
  "defaultActivityJql =
     u ''(assignee = currentUser() OR reporter = currentUser()) AND updated >= -1h ORDER BY updated DESC''"

definition handleActivitySelect :: "SettingsModal \<Rightarrow> SettingsModal" where
  "handleActivitySelect st =
     (case activity (editingConfig st) of
        None \<Rightarrow>
          st\<lparr>editingConfig := (editingConfig st)
               \<lparr>activity := Some \<lparr>enabled = True, pollingIntervalMinutes = 5,
                                   activityJql = defaultActivityJql\<rparr>\<rparr>\<rparr>
      | Some a \<Rightarrow>
          st\<lparr>editingConfig := (editingConfig st)\<lparr>activity := Some (a\<lparr>enabled := \<not> enabled a\<rparr>)\<rparr>\<rparr>)"

text \<open>Pasted text: \<open>\r\n\<close> and \<open>\r\<close> become \<open>\n\<close>; one-line fields then lose their line ends.\<close>

fun normalizeNewlines :: "jsstring \<Rightarrow> jsstring" where
  "normalizeNewlines [] = []"
| "normalizeNewlines [c] = [if c = 13 then 10 else c]"
| "normalizeNewlines (c # d # r) =
     (if c = 13 \<and> d = 10 then 10 # normalizeNewlines r
      else (if c = 13 then 10 else c) # normalizeNewlines (d # r))"

definition pastedText :: "EditField \<Rightarrow> jsstring \<Rightarrow> jsstring" where
  "pastedText field t =
     (let normalizedText = normalizeNewlines t
      in if field = FieldName \<or> field = FieldProject \<or> field = FieldInterval
         then trim (map (\<lambda>c. if c = 10 then 32 else c) normalizedText)
         else normalizedText)"

definition insertAtCursor :: "jsstring \<Rightarrow> SettingsModal \<Rightarrow> SettingsModal" where
  "insertAtCursor t st =
     st\<lparr>editValue := take (cursorPos st) (editValue st) @ t @ drop (cursorPos st) (editValue st),
        cursorPos := cursorPos st + length t, validationError := None\<rparr>"

text \<open>The key handler while a field is being edited.\<close>

definition editKey :: "Env \<Rightarrow> KeyEvent \<Rightarrow> EditField \<Rightarrow> SettingsModal \<Rightarrow> SettingsModal \<times> Signal" where
  "editKey env k field st =
     (if keyName k = u ''escape'' then (clearEditState st, NoSignal)
      else if keyName k = u ''return''
      then (if field = FieldJql \<or> field = FieldActivityJql
            then (st\<lparr>validating := True\<rparr>, ValidateJql (editValue st))
            else (applyEdit st, NoSignal))
      else if keyName k = u ''left'' then (st\<lparr>cursorPos := cursorPos st - 1\<rparr>, NoSignal)
      else if keyName k = u ''right''
      then (st\<lparr>cursorPos := min (length (editValue st)) (cursorPos st + 1)\<rparr>, NoSignal)
      else if keyName k = u ''home'' \<or> (ctrl k \<and> keyName k = u ''a'') then (st\<lparr>cursorPos := 0\<rparr>, NoSignal)
      else if keyName k = u ''end'' \<or> (ctrl k \<and> keyName k = u ''e'')
      then (st\<lparr>cursorPos := length (editValue st)\<rparr>, NoSignal)
      else if keyName k = u ''backspace''
      then ((if cursorPos st > 0
             then st\<lparr>editValue := take (cursorPos st - 1) (editValue st) @ drop (cursorPos st) (editValue st),
                     cursorPos := cursorPos st - 1, validationError := None\<rparr>
             else st\<lparr>validationError := None\<rparr>), NoSignal)
      else if keyName k = u ''delete''
      then ((if cursorPos st < length (editValue st)
             then st\<lparr>editValue := take (cursorPos st) (editValue st) @ drop (cursorPos st + 1) (editValue st),
                     validationError := None\<rparr>
             else st\<lparr>validationError := None\<rparr>), NoSignal)
      else if (ctrl k \<or> meta k) \<and> keyName k = u ''v''
      then (case clipboard env of
              None \<Rightarrow> (st, NoSignal)
            | Some t \<Rightarrow> if t = [] then (st, NoSignal) else (insertAtCursor (pastedText field t) st, NoSignal))
      else if length (sequence k) \<ge> 1
      then (let printable = filter (\<lambda>c. c \<ge> 32) (sequence k)
            in if length printable > 0 then (insertAtCursor printable st, NoSignal) else (st, NoSignal))
      else (st, NoSignal))"

text \<open>
  The key handler of the first effect: nothing while a validation runs, else by state.
\<close>

definition handler :: "Env \<Rightarrow> KeyEvent \<Rightarrow> SettingsModal \<Rightarrow> SettingsModal \<times> Signal" where
  "handler env k st =
     (if validating st then (st, NoSignal)
      else case editField st of
        Some field \<Rightarrow> editKey env k field st
      | None \<Rightarrow>
          if keyName k = u ''escape''
          then (if mode st = ModeMenu then (st, OnClose)
                else (st\<lparr>mode := ModeMenu, validationError := None\<rparr>, NoSignal))
          else if keyName k = u ''up'' \<or> keyName k = u ''k''
          then (if mode st = ModeMenu then (st\<lparr>menuIndex := menuIndex st - 1\<rparr>, NoSignal)
                else if mode st = ModeViews then (st\<lparr>viewIndex := viewIndex st - 1\<rparr>, NoSignal)
                else if mode st = ModeEditView then (st\<lparr>fieldIndex := fieldIndex st - 1\<rparr>, NoSignal)
                else (st, NoSignal))
          else if keyName k = u ''down'' \<or> keyName k = u ''j''
          then (if mode st = ModeMenu then (st\<lparr>menuIndex := min (5 - 1) (menuIndex st + 1)\<rparr>, NoSignal)
                else if mode st = ModeViews
                then (st\<lparr>viewIndex := min (length (views (editingConfig st)) + 1) (viewIndex st + 1)\<rparr>, NoSignal)
                else if mode st = ModeEditView then (st\<lparr>fieldIndex := min 1 (fieldIndex st + 1)\<rparr>, NoSignal)
                else (st, NoSignal))
          else if keyName k = u ''return''
          then (if mode st = ModeMenu then handleMenuSelect st
                else if mode st = ModeViews then (handleViewSelect st, NoSignal)
                else if mode st = ModeEditView then (handleEditViewSelect st, NoSignal)
                else if mode st = ModeActivity then (handleActivitySelect st, NoSignal)
                else (startEditing FieldProject (project (editingConfig st)) st, NoSignal))
          else if keyName k = u ''d'' \<and> mode st = ModeViews
                  \<and> viewIndex st < length (views (editingConfig st))
          then (let newViews = take (viewIndex st) (views (editingConfig st))
                               @ drop (viewIndex st + 1) (views (editingConfig st))
                in (st\<lparr>editingConfig := (editingConfig st)\<lparr>views := newViews\<rparr>,
                       viewIndex := min (viewIndex st) (length newViews)\<rparr>, NoSignal))
          else (st, NoSignal))"

text \<open>
  The key handler of the second effect, for the activity panel: with the activity section
  enabled, \<open>i\<close> starts the edit of the interval and \<open>j\<close> or \<open>J\<close> the edit of the activity
  query; every other key is ignored.
\<close>

definition activityHandler :: "KeyEvent \<Rightarrow> SettingsModal \<Rightarrow> SettingsModal" where
  "activityHandler k st =
     (case activity (editingConfig st) of
        None \<Rightarrow> st
      | Some a \<Rightarrow>
          if enabled a
          then (if keyName k = u ''i''
                then startEditing FieldInterval (numberToString (pollingIntervalMinutes a)) st
                else if keyName k = u ''j'' \<or> keyName k = u ''J''
                then startEditing FieldActivityJql (activityJql a) st
                else st)
          else st)"

text \<open>
  The two effects, from the state \<open>prev\<close> before a key to the state \<open>st\<close> after it. With no
  state changed there is no render and the handler registered stays. After a render the
  first effect, which has no dependency list, registers its handler; the second effect runs
  after it when \<open>mode\<close>, \<open>editField\<close> or \<open>editingConfig.activity\<close> changed, and registers
  the activity handler when the mode is \<open>activity\<close> and no field is in edit.
\<close>

definition registerHandlers :: "SettingsModal \<Rightarrow> SettingsModal \<Rightarrow> SettingsModal" where
  "registerHandlers prev st =
     (if mode st = mode prev \<and> editField st = editField prev
         \<and> activity (editingConfig st) = activity (editingConfig prev)
      then (if st = prev then st else st\<lparr>activityKeys := False\<rparr>)
      else st\<lparr>activityKeys := (mode st = ModeActivity \<and> editField st = None)\<rparr>)"

text \<open>
  A render of the modal that its parent causes, no state of the modal changed: the first
  effect registers its handler again, the second does not run.
\<close>

definition parentRendered :: "SettingsModal \<Rightarrow> SettingsModal" where
  "parentRendered st = st\<lparr>activityKeys := False\<rparr>"

text \<open>
  A key, given to the handler registered last, and, for a query field confirmed, the answer
  of the validation applied: no key is taken in between, since the handler ignores the keys
  while \<open>validating\<close> is set.
\<close>

definition press :: "Env \<Rightarrow> KeyEvent \<Rightarrow> SettingsModal \<Rightarrow> SettingsModal \<times> Signal" where
  "press env k st =
     (if activityKeys st then (registerHandlers st (activityHandler k st), NoSignal)
      else case handler env k st of
             (st1, ValidateJql q) \<Rightarrow>
               (let st2 = registerHandlers st st1
                in (registerHandlers st2
                      (onValidated (SettingsModal_validateJql env (editingConfig st2) q) st2),
                    NoSignal))
           | (st1, signal) \<Rightarrow> (registerHandlers st st1, signal))"

text \<open>Keys pressed one after the other, until the modal saves or closes.\<close>

fun pressAll :: "Env \<Rightarrow> KeyEvent list \<Rightarrow> SettingsModal \<Rightarrow> SettingsModal \<times> Signal" where
  "pressAll env [] st = (st, NoSignal)"
| "pressAll env (k # ks) st =
     (case press env k st of
        (st1, NoSignal) \<Rightarrow> pressAll env ks st1
      | r \<Rightarrow> r)"

text \<open>
  The event of a key pressed alone, by its name; the key of a single character sends that
  character as its sequence.
\<close>

definition named :: "string \<Rightarrow> KeyEvent" where
  "named n = \<lparr>keyName = u n, ctrl = False, meta = False, sequence = (if length n = 1 then u n else [])\<rparr>"

section \<open>config-wizard.ts: removeView\<close>

text \<open>
  \<open>choice\<close> is what \<open>askMenu\<close> returned (\<open>-1\<close> for no valid choice) and \<open>confirm\<close> what
  \<open>askYesNo\<close> returned; the result is the configuration, saved when a view was removed.
\<close>

definition removeView :: "int \<Rightarrow> bool \<Rightarrow> Config \<Rightarrow> Config" where
  "removeView choice confirm c =
     (if length (views c) = 0 then c
      else if length (views c) = 1 then c
      else if choice = - 1 \<or> choice = int (length (map name (views c) @ [u ''Cancel''])) - 1 then c
      else if \<not> (0 \<le> choice \<and> nat choice < length (views c)) then c
      else if \<not> confirm then c
      else c\<lparr>views := take (nat choice) (views c) @ drop (nat choice + 1) (views c)\<rparr>)"

section \<open>Example inputs\<close>

text \<open>
  A configuration with one view, one with two views and an enabled activity section, three
  issues, a service that answers every search with one issue and accepts every query, and a
  service that fails every request.
\<close>

definition viewOpen :: View where
  "viewOpen = \<lparr>name = u ''Open'', jql = u ''status = Open''\<rparr>"

definition viewMine :: View where
  "viewMine = \<lparr>name = u ''Mine'', jql = u ''assignee = currentUser() ORDER BY updated DESC''\<rparr>"

definition oneViewConfig :: Config where
  "oneViewConfig = \<lparr>project = u ''PROJ'', domain = u ''example.atlassian.net'', views = [viewOpen],
                     activity = None\<rparr>"

definition twoViewConfig :: Config where
  "twoViewConfig = \<lparr>project = u ''PROJ'', domain = u ''example.atlassian.net'',
                     views = [viewOpen, viewMine],
                     activity = Some \<lparr>enabled = True, pollingIntervalMinutes = 5,
                                       activityJql = u ''updated >= -1h''\<rparr>\<rparr>"

definition issueA :: JiraIssue where
  "issueA = \<lparr>issueId = u ''A'', key = u ''PROJ-1'', summary = u ''first''\<rparr>"

definition issueB :: JiraIssue where
  "issueB = \<lparr>issueId = u ''B'', key = u ''PROJ-2'', summary = u ''second''\<rparr>"

definition issueC :: JiraIssue where
  "issueC = \<lparr>issueId = u ''C'', key = u ''PROJ-3'', summary = u ''third''\<rparr>"

definition serviceUp :: Env where
  "serviceUp = \<lparr>hasCredentials = True,
                 searchIssues = (\<lambda>n q. Inr [issueA]),
                 parseJql = (\<lambda>qs. Inr (map (\<lambda>q. \<lparr>parsedQuery = q, parsedErrors = None,
                                                     parsedWarnings = None\<rparr>) qs)),
                 clipboard = None\<rparr>"

definition serviceDown :: Env where
  "serviceDown = \<lparr>hasCredentials = True,
                   searchIssues = (\<lambda>n q. Inl (u ''Jira API error: 503 Service Unavailable - '')),
                   parseJql = (\<lambda>qs. Inl (u ''Jira API error: 503 Service Unavailable - '')),
                   clipboard = None\<rparr>"

text \<open>
  \<open>withCache c entries\<close>: \<open>App\<close> as it stands after a load of the configuration \<open>c\<close> that
  left \<open>entries\<close> in the cache, rendered, every issue of the cache seen.
\<close>

definition withCache :: "Config \<Rightarrow> (nat \<times> IssueCacheEntry) list \<Rightarrow> App" where
  "withCache c entries =
     (initialApp c 0)\<lparr>issueCache := map_of entries, issueCacheRef := map_of entries, loading := False,
                      jiraClient := True, validationDone := True,
                      knownIssueIds := issueId ` (\<Union>e \<in> set entries. set (issues (snd e)))\<rparr>"

text \<open>
  A service that finds one error in every query and reports it with an empty message, and
  one that reports \<open>Field 'bogus' does not exist.\<close> for every query.
\<close>

definition serviceEmptyMessage :: Env where
  "serviceEmptyMessage =
     serviceUp\<lparr>parseJql := (\<lambda>qs. Inr (map (\<lambda>q. \<lparr>parsedQuery = q, parsedErrors = Some [[]],
                                                          parsedWarnings = None\<rparr>) qs))\<rparr>"

definition serviceRejects :: Env where
  "serviceRejects =
     serviceUp\<lparr>parseJql := (\<lambda>qs. Inr (map (\<lambda>q. \<lparr>parsedQuery = q,
                                    parsedErrors = Some [u ''Field bogus does not exist.'',
                                                         u ''second error''],
                                    parsedWarnings = None\<rparr>) qs))\<rparr>"

text \<open>A service that accepts every query with a warning.\<close>

definition serviceWarns :: Env where
  "serviceWarns =
     serviceUp\<lparr>parseJql := (\<lambda>qs. Inr (map (\<lambda>q. \<lparr>parsedQuery = q, parsedErrors = Some [],
                                    parsedWarnings = Some [u ''deprecated field'']\<rparr>) qs))\<rparr>"

section \<open>Facts about the query scoper\<close>

lemma u_simps: "u [] = []" "u (c # cs) = of_char c # u cs"
  by (simp_all add: u_def)

lemma length_u [simp]: "length (u s) = length s"
  by (simp add: u_def)

lemma match_lit_iff:
  "match_lit p s \<longleftrightarrow> (\<exists>a rest. s = a @ rest \<and> map to_upper_ascii a = map to_upper_ascii p)"
proof (induction p s rule: match_lit.induct)
  case (1 s)
  then show ?case by simp
next
  case (2 p ps)
  then show ?case by simp
next
  case (3 p ps c cs)
  show ?case
  proof
    assume "match_lit (p # ps) (c # cs)"
    then have h: "ci_match p c" "match_lit ps cs" by simp_all
    with 3 obtain a rest where "cs = a @ rest" "map to_upper_ascii a = map to_upper_ascii ps" by auto
    with h(1) have "c # cs = (c # a) @ rest \<and> map to_upper_ascii (c # a) = map to_upper_ascii (p # ps)"
      by (simp add: ci_match_def)
    then show "\<exists>a rest. c # cs = a @ rest \<and> map to_upper_ascii a = map to_upper_ascii (p # ps)" by blast
  next
    assume "\<exists>a rest. c # cs = a @ rest \<and> map to_upper_ascii a = map to_upper_ascii (p # ps)"
    then obtain a rest where ar: "c # cs = a @ rest" "map to_upper_ascii a = map to_upper_ascii (p # ps)" by blast
    then obtain a' where a': "a = c # a'" by (cases a) auto
    with ar have "cs = a' @ rest" "map to_upper_ascii a' = map to_upper_ascii ps" "ci_match p c"
      by (simp_all add: ci_match_def)
    with 3 show "match_lit (p # ps) (c # cs)" by auto
  qed
qed

lemma upper_ORDER [simp]: "map to_upper_ascii (u ''order'') = u ''ORDER''"
  by (simp add: u_simps to_upper_ascii_def)

lemma upper_BY [simp]: "map to_upper_ascii (u ''by'') = u ''BY''"
  by (simp add: u_simps to_upper_ascii_def)

lemma upper_B_not_space: "to_upper_ascii c = 66 \<Longrightarrow> \<not> js_space c"
  by (auto simp: to_upper_ascii_def js_space_def split: if_splits)

lemma upper_eq_length: "map to_upper_ascii a = u lit \<Longrightarrow> length a = length lit"
  by (metis length_map length_u)

lemma order_by_at_keyword: "order_by_at s i \<longleftrightarrow> order_by_keyword_at s i"
proof
  assume m: "order_by_at s i"
  define r where "r = drop (i + 5) s"
  define w where "w = takeWhile js_space r"
  define k where "k = i + 5 + length w"
  from m have wb: "word_boundary s i" and mo: "match_lit (u ''order'') (drop i s)"
    and wne: "i + 5 < k" and mb: "match_lit (u ''by'') (drop k s)" and we: "word_boundary s (k + 2)"
    by (simp_all add: order_by_at_def Let_def k_def w_def r_def)
  from mo obtain a rest where a: "drop i s = a @ rest" "map to_upper_ascii a = u ''ORDER''"
    by (auto simp: match_lit_iff)
  from a(2) have la: "length a = 5" by (simp add: upper_eq_length)
  have "drop (i + 5) s = drop 5 (drop i s)" by (simp add: add.commute)
  with a(1) la have rest: "rest = r" by (simp add: r_def)
  have "drop k s = drop (length w) r" by (simp add: k_def r_def add.commute)
  then have dk: "drop k s = dropWhile js_space r" by (simp add: w_def dropWhile_eq_drop)
  from mb dk obtain b rest2 where b: "dropWhile js_space r = b @ rest2" "map to_upper_ascii b = u ''BY''"
    by (auto simp: match_lit_iff)
  from b(2) have lb: "length b = 2" by (simp add: upper_eq_length)
  have "r = w @ dropWhile js_space r" by (simp add: w_def)
  with a(1) rest b(1) have split: "drop i s = a @ w @ b @ rest2" by simp
  from a(1) la have "i \<le> length s" by (cases "i \<le> length s") auto
  moreover from wne have "w \<noteq> []" by (simp add: k_def)
  moreover have "list_all js_space w" by (simp add: w_def list_all_iff) (meson set_takeWhileD)
  moreover have "i + length a + length w + length b = k + 2" by (simp add: la lb k_def)
  ultimately show "order_by_keyword_at s i"
    unfolding order_by_keyword_at_def using split a(2) b(2) wb we by metis
next
  assume "order_by_keyword_at s i"
  then obtain a w b rest where h: "i \<le> length s" "drop i s = a @ w @ b @ rest"
    "map to_upper_ascii a = u ''ORDER''" "w \<noteq> []" "list_all js_space w"
    "map to_upper_ascii b = u ''BY''" "word_boundary s i"
    "word_boundary s (i + length a + length w + length b)"
    unfolding order_by_keyword_at_def by blast
  from h(3) have la: "length a = 5" by (simp add: upper_eq_length)
  from h(6) have lb: "length b = 2" by (simp add: upper_eq_length)
  from h(6) obtain b0 b1 where b: "b = [b0, b1]" "to_upper_ascii b0 = 66"
    by (cases b; cases "tl b") (auto simp: u_simps)
  have "drop (i + 5) s = drop 5 (drop i s)" by (simp add: add.commute)
  with h(2) la have r: "drop (i + 5) s = w @ b @ rest" by simp
  have "takeWhile js_space (b @ rest) = []" using b upper_B_not_space by simp
  with h(5) have tw: "takeWhile js_space (w @ b @ rest) = w"
    by (simp add: takeWhile_append2 list_all_iff)
  have "drop (i + 5 + length w) s = drop (length w) (drop (i + 5) s)" by (simp add: add.commute)
  with r have dk: "drop (i + 5 + length w) s = b @ rest" by simp
  have "match_lit (u ''order'') (drop i s)" using h(2,3) by (auto simp: match_lit_iff)
  moreover have "match_lit (u ''by'') (drop (i + 5 + length w) s)" using dk h(6) by (auto simp: match_lit_iff)
  moreover have "i + 5 < i + 5 + length w" using h(4) by simp
  moreover have "word_boundary s (i + 5 + length w + 2)" using h(8) la lb by simp
  ultimately show "order_by_at s i"
    using h(7) by (simp add: order_by_at_def Let_def r tw)
qed

lemma order_by_at_bound: "order_by_at s i \<Longrightarrow> i < length s"
proof (rule ccontr)
  assume m: "order_by_at s i" and "\<not> i < length s"
  then have "drop i s = []" by simp
  with m show False by (simp add: order_by_at_def Let_def u_simps)
qed

lemma exec_order_by_None: "exec_order_by s = None \<longleftrightarrow> (\<forall>i. \<not> order_by_at s i)"
proof
  assume "exec_order_by s = None"
  then have n: "\<forall>i \<in> set [0..<Suc (length s)]. \<not> order_by_at s i"
    unfolding exec_order_by_def find_None_iff by blast
  show "\<forall>i. \<not> order_by_at s i"
  proof
    fix i
    show "\<not> order_by_at s i"
    proof
      assume m: "order_by_at s i"
      then have "i \<in> set [0..<Suc (length s)]" using order_by_at_bound [OF m] by simp
      with n m show False by blast
    qed
  qed
next
  assume "\<forall>i. \<not> order_by_at s i"
  then show "exec_order_by s = None"
    unfolding exec_order_by_def find_None_iff by blast
qed

lemma exec_order_by_Some:
  "exec_order_by s = Some i \<longleftrightarrow> order_by_at s i \<and> (\<forall>j<i. \<not> order_by_at s j)"
proof
  assume "exec_order_by s = Some i"
  then obtain k where k: "k < length [0..<Suc (length s)]" "order_by_at s ([0..<Suc (length s)] ! k)"
    "i = [0..<Suc (length s)] ! k" "\<forall>j<k. \<not> order_by_at s ([0..<Suc (length s)] ! j)"
    unfolding exec_order_by_def find_Some_iff by blast
  from k(1) have kl: "k < Suc (length s)" by simp
  have nth: "\<And>j. j < Suc (length s) \<Longrightarrow> [0..<Suc (length s)] ! j = j"
    using nth_upt [of 0 _ "Suc (length s)"] by simp
  from kl nth have ik: "i = k" using k(3) by simp
  have "\<forall>j<k. \<not> order_by_at s j"
  proof (intro allI impI)
    fix j assume "j < k"
    with kl have "j < Suc (length s)" by simp
    with nth k(4) \<open>j < k\<close> show "\<not> order_by_at s j" by force
  qed
  with k(2) nth kl ik show "order_by_at s i \<and> (\<forall>j<i. \<not> order_by_at s j)" by simp
next
  assume h: "order_by_at s i \<and> (\<forall>j<i. \<not> order_by_at s j)"
  then have il: "i < Suc (length s)" using order_by_at_bound less_Suc_eq by blast
  have nth: "\<And>j. j < Suc (length s) \<Longrightarrow> [0..<Suc (length s)] ! j = j"
    using nth_upt [of 0 _ "Suc (length s)"] by simp
  have "i < length [0..<Suc (length s)] \<and> order_by_at s ([0..<Suc (length s)] ! i)
      \<and> i = [0..<Suc (length s)] ! i \<and> (\<forall>j<i. \<not> order_by_at s ([0..<Suc (length s)] ! j))"
    using h il nth by (simp del: upt_Suc)
  then show "exec_order_by s = Some i"
    unfolding exec_order_by_def find_Some_iff by blast
qed


lemmas scope_eval = injectProjectConstraintAtEnd_def splitOrderBy_def exec_order_by_def order_by_at_def
  u_simps trim_def word_boundary_def upt_rec js_space_def is_word_char_def ci_match_def
  to_upper_ascii_def Let_def

lemma rtrim_decomp:
  "\<exists>ws. t = rev (dropWhile js_space (rev t)) @ ws \<and> list_all js_space ws"
proof -
  have "rev (takeWhile js_space (rev t) @ dropWhile js_space (rev t)) = t"
    by (simp only: takeWhile_dropWhile_id rev_rev_ident)
  then have "t = rev (dropWhile js_space (rev t)) @ rev (takeWhile js_space (rev t))"
    by (simp only: rev_append)
  moreover have "list_all js_space (rev (takeWhile js_space (rev t)))"
    by (simp add: list_all_iff) (meson set_takeWhileD)
  ultimately show ?thesis by blast
qed

lemma trim_nonspace_head:
  assumes "\<not> js_space x"
  shows "\<exists>zs ws. trim (x # xs) = x # zs \<and> x # xs = trim (x # xs) @ ws \<and> list_all js_space ws"
proof -
  have d: "dropWhile js_space (x # xs) = x # xs" using assms by simp
  then have t: "trim (x # xs) = rev (dropWhile js_space (rev (x # xs)))"
    by (simp only: trim_def)
  obtain ws where ws: "x # xs = rev (dropWhile js_space (rev (x # xs))) @ ws" "list_all js_space ws"
    using rtrim_decomp by blast
  have "dropWhile js_space (rev xs @ [x]) = dropWhile js_space (rev xs) @ [x]
      \<or> dropWhile js_space (rev xs @ [x]) = [x]"
    using assms by (simp add: dropWhile_append)
  then obtain ys where "dropWhile js_space (rev (x # xs)) = ys @ [x]" by auto
  then have "rev (dropWhile js_space (rev (x # xs))) = x # rev ys" by simp
  with t have "trim (x # xs) = x # rev ys" by simp
  moreover from t ws(1) have "x # xs = trim (x # xs) @ ws" by simp
  ultimately show ?thesis using ws(2) by blast
qed

lemma match_order_head: "match_lit (u ''order'') s \<Longrightarrow> \<exists>c cs. s = c # cs \<and> to_upper_ascii c = 79"
  by (cases s) (auto simp: u_simps ci_match_def to_upper_ascii_def)

lemma upper_O_not_space: "to_upper_ascii c = 79 \<Longrightarrow> \<not> js_space c"
  by (auto simp: to_upper_ascii_def js_space_def split: if_splits)

lemma order_by_at_head:
  "order_by_at s i \<Longrightarrow> \<exists>c cs. drop i s = c # cs \<and> to_upper_ascii c = 79"
  by (rule match_order_head) (simp add: order_by_at_def Let_def)

lemma splitOrderBy_no_match:
  "\<forall>i. \<not> order_by_at q i \<Longrightarrow> splitOrderBy q = \<lparr>conditions = trim q, orderBy = []\<rparr>"
  using exec_order_by_None [of q] by (simp add: splitOrderBy_def)

lemma splitOrderBy_first_match:
  assumes "order_by_at q i" and "\<forall>j<i. \<not> order_by_at q j"
  shows "splitOrderBy q = \<lparr>conditions = trim (take i q), orderBy = trim (drop i q)\<rparr>"
    and "orderBy (splitOrderBy q) \<noteq> []"
proof -
  from assms have e: "exec_order_by q = Some i" by (simp add: exec_order_by_Some)
  then show s: "splitOrderBy q = \<lparr>conditions = trim (take i q), orderBy = trim (drop i q)\<rparr>"
    by (simp add: splitOrderBy_def)
  from order_by_at_head [OF assms(1)] obtain c cs where c: "drop i q = c # cs" "to_upper_ascii c = 79"
    by blast
  from trim_nonspace_head [OF upper_O_not_space [OF c(2)], of cs] c(1) s
  show "orderBy (splitOrderBy q) \<noteq> []" by auto
qed

lemma inject_shape:
  "injectProjectConstraintAtEnd q p =
     (if conditions (splitOrderBy q) = [] then u ''project = '' @ p
      else u ''('' @ conditions (splitOrderBy q) @ u '') AND project = '' @ p)
     @ (if orderBy (splitOrderBy q) = [] then [] else u '' '' @ orderBy (splitOrderBy q))"
  by (simp add: injectProjectConstraintAtEnd_def Let_def)

text \<open>
  Claim C1. For every query \<open>q\<close> and project \<open>p\<close>, the scoped query is the scoped
  conditions, \<open>project = p\<close> when the conditions clause is empty and
  \<open>(conditions) AND project = p\<close> otherwise, followed by one space and the ordering clause
  when there is one. With no \<open>ORDER BY\<close> keyword in \<open>q\<close> the conditions clause is \<open>q\<close>
  trimmed and there is no ordering clause; otherwise \<open>q\<close> is split at the first position
  of the keyword, each side trimmed, and the ordering clause is not empty. The two examples
  of the specification evaluate as it says.
\<close>

theorem C1_ScopeToProject:
  "injectProjectConstraintAtEnd q p =
     (if conditions (splitOrderBy q) = [] then u ''project = '' @ p
      else u ''('' @ conditions (splitOrderBy q) @ u '') AND project = '' @ p)
     @ (if orderBy (splitOrderBy q) = [] then [] else u '' '' @ orderBy (splitOrderBy q))
   \<and> ((\<forall>i. \<not> order_by_keyword_at q i) \<longrightarrow>
        splitOrderBy q = \<lparr>conditions = trim q, orderBy = []\<rparr>)
   \<and> (order_by_keyword_at q i \<and> (\<forall>j<i. \<not> order_by_keyword_at q j) \<longrightarrow>
        splitOrderBy q = \<lparr>conditions = trim (take i q), orderBy = trim (drop i q)\<rparr>
        \<and> orderBy (splitOrderBy q) \<noteq> [])
   \<and> injectProjectConstraintAtEnd (u ''status = Open ORDER BY created DESC'') (u ''PROJ'')
       = u ''(status = Open) AND project = PROJ ORDER BY created DESC''
   \<and> injectProjectConstraintAtEnd (u '''') (u ''PROJ'') = u ''project = PROJ''"
proof (intro conjI impI)
  show "injectProjectConstraintAtEnd q p =
     (if conditions (splitOrderBy q) = [] then u ''project = '' @ p
      else u ''('' @ conditions (splitOrderBy q) @ u '') AND project = '' @ p)
     @ (if orderBy (splitOrderBy q) = [] then [] else u '' '' @ orderBy (splitOrderBy q))"
    by (rule inject_shape)
next
  assume "\<forall>i. \<not> order_by_keyword_at q i"
  then show "splitOrderBy q = \<lparr>conditions = trim q, orderBy = []\<rparr>"
    by (simp add: splitOrderBy_no_match order_by_at_keyword)
next
  assume h: "order_by_keyword_at q i \<and> (\<forall>j<i. \<not> order_by_keyword_at q j)"
  then have m: "order_by_at q i" "\<forall>j<i. \<not> order_by_at q j"
    by (simp_all add: order_by_at_keyword)
  from splitOrderBy_first_match(1) [OF m]
  show "splitOrderBy q = \<lparr>conditions = trim (take i q), orderBy = trim (drop i q)\<rparr>" .
  from splitOrderBy_first_match(2) [OF m]
  show "orderBy (splitOrderBy q) \<noteq> []" .
next
  show "injectProjectConstraintAtEnd (u ''status = Open ORDER BY created DESC'') (u ''PROJ'')
       = u ''(status = Open) AND project = PROJ ORDER BY created DESC''"
    by (simp add: scope_eval)
next
  show "injectProjectConstraintAtEnd (u '''') (u ''PROJ'') = u ''project = PROJ''"
    by (simp add: scope_eval)
qed

text \<open>
  The hypotheses of C1 at the inputs \<open>status = Open ORDER BY created DESC\<close>, whose first
  keyword is at position 14, and \<open>status = Open\<close>, which has none.
\<close>

theorem C1_ScopeToProject_witness:
  "order_by_keyword_at (u ''status = Open ORDER BY created DESC'') 14
   \<and> splitOrderBy (u ''status = Open ORDER BY created DESC'')
       = \<lparr>conditions = u ''status = Open'', orderBy = u ''ORDER BY created DESC''\<rparr>
   \<and> splitOrderBy (u ''status = Open'') = \<lparr>conditions = u ''status = Open'', orderBy = []\<rparr>"
proof -
  let ?q = "u ''status = Open ORDER BY created DESC''"
  have "exec_order_by ?q = Some 14" by (simp add: scope_eval)
  then have k: "order_by_keyword_at ?q 14 \<and> (\<forall>j<14. \<not> order_by_keyword_at ?q j)"
    by (simp add: exec_order_by_Some order_by_at_keyword)
  have "exec_order_by (u ''status = Open'') = None" by (simp add: scope_eval)
  then have n: "\<forall>i. \<not> order_by_keyword_at (u ''status = Open'') i"
    by (simp add: exec_order_by_None order_by_at_keyword)
  have t1: "trim (take 14 ?q) = u ''status = Open''" by (simp add: scope_eval)
  have t2: "trim (drop 14 ?q) = u ''ORDER BY created DESC''" by (simp add: scope_eval)
  have t3: "trim (u ''status = Open'') = u ''status = Open''" by (simp add: scope_eval)
  from C1_ScopeToProject [of ?q "[]" 14] k t1 t2
  have a: "splitOrderBy ?q = \<lparr>conditions = u ''status = Open'', orderBy = u ''ORDER BY created DESC''\<rparr>"
    by simp
  from C1_ScopeToProject [of "u ''status = Open''" "[]" 0] n t3
  have b: "splitOrderBy (u ''status = Open'') = \<lparr>conditions = u ''status = Open'', orderBy = []\<rparr>"
    by simp
  from k a b show ?thesis by blast
qed


lemma inject_head:
  "\<exists>x xs. injectProjectConstraintAtEnd q p = x # xs \<and> (x = 40 \<or> x = 112)"
  by (simp add: injectProjectConstraintAtEnd_def Let_def u_simps)

lemma paren_shift: "(40::nat) # c @ X = c @ Y \<Longrightarrow> \<exists>Y'. Y = 40 # Y'"
proof (induction c)
  case Nil
  then show ?case by auto
next
  case (Cons a c)
  from Cons.prems have "40 # c @ X = c @ Y" by auto
  then show ?case by (rule Cons.IH)
qed

lemma conditions_of_scoped:
  assumes "x = 40 \<or> x = 112"
  shows "\<exists>zs Y. conditions (splitOrderBy (x # xs)) = x # zs
           \<and> x # xs = conditions (splitOrderBy (x # xs)) @ Y
           \<and> (\<forall>Y'. Y \<noteq> 40 # Y')"
proof -
  from assms have xs: "\<not> js_space x" and xo: "to_upper_ascii x \<noteq> 79"
    by (auto simp: js_space_def to_upper_ascii_def)
  have sp40: "\<not> js_space 40" by (simp add: js_space_def)
  show ?thesis
  proof (cases "exec_order_by (x # xs)")
    case None
    then have c: "conditions (splitOrderBy (x # xs)) = trim (x # xs)"
      by (simp add: splitOrderBy_def)
    from trim_nonspace_head [OF xs, of xs] obtain zs ws where
      t: "trim (x # xs) = x # zs" "x # xs = trim (x # xs) @ ws" "list_all js_space ws" by blast
    from t(3) sp40 have "\<forall>Y'. ws \<noteq> 40 # Y'" by auto
    with c t show ?thesis by metis
  next
    case (Some i)
    then have c: "conditions (splitOrderBy (x # xs)) = trim (take i (x # xs))"
      by (simp add: splitOrderBy_def)
    from Some have m: "order_by_at (x # xs) i" by (simp add: exec_order_by_Some)
    from order_by_at_head [OF m] obtain c0 cs where d: "drop i (x # xs) = c0 # cs" "to_upper_ascii c0 = 79"
      by blast
    with xo have "i \<noteq> 0" by (cases i) auto
    then obtain i' where i': "i = Suc i'" by (cases i) auto
    then have tk: "take i (x # xs) = x # take i' xs" by simp
    from trim_nonspace_head [OF xs, of "take i' xs"] tk obtain zs ws where
      t: "trim (take i (x # xs)) = x # zs" "take i (x # xs) = trim (take i (x # xs)) @ ws"
         "list_all js_space ws" by auto
    have dec: "x # xs = trim (take i (x # xs)) @ (ws @ c0 # cs)"
      by (metis append.assoc append_take_drop_id t(2) d(1))
    have "\<forall>Y'. ws @ c0 # cs \<noteq> 40 # Y'"
    proof (cases ws)
      case Nil
      with d(2) show ?thesis by (auto simp: to_upper_ascii_def)
    next
      case (Cons w ws')
      with t(3) sp40 show ?thesis by auto
    qed
    with c t(1) dec show ?thesis by metis
  qed
qed

text \<open>
  Claim C8. For every query \<open>q\<close> and project \<open>p\<close>, scoping the scoped query again is not
  idempotent: the conditions clause of the scoped query is not empty and is a prefix of it,
  the second application wraps that clause in parentheses and appends \<open>AND project = p\<close>
  once more, and the result differs from the result of one application. For
  \<open>status = Open\<close> and \<open>PROJ\<close> the result is
  \<open>((status = Open) AND project = PROJ) AND project = PROJ\<close>.
\<close>

theorem C8_double_scoping:
  "conditions (splitOrderBy (injectProjectConstraintAtEnd q p)) \<noteq> []
   \<and> take (length (conditions (splitOrderBy (injectProjectConstraintAtEnd q p))))
        (injectProjectConstraintAtEnd q p)
       = conditions (splitOrderBy (injectProjectConstraintAtEnd q p))
   \<and> injectProjectConstraintAtEnd (injectProjectConstraintAtEnd q p) p
       = u ''('' @ conditions (splitOrderBy (injectProjectConstraintAtEnd q p))
         @ u '') AND project = '' @ p
         @ (if orderBy (splitOrderBy (injectProjectConstraintAtEnd q p)) = [] then []
            else u '' '' @ orderBy (splitOrderBy (injectProjectConstraintAtEnd q p)))
   \<and> injectProjectConstraintAtEnd (injectProjectConstraintAtEnd q p) p
       \<noteq> injectProjectConstraintAtEnd q p
   \<and> injectProjectConstraintAtEnd (injectProjectConstraintAtEnd (u ''status = Open'') (u ''PROJ'')) (u ''PROJ'')
       = u ''((status = Open) AND project = PROJ) AND project = PROJ''"
proof -
  define r where "r = injectProjectConstraintAtEnd q p"
  define c where "c = conditions (splitOrderBy r)"
  from inject_head [of q p] obtain x xs where x: "r = x # xs" "x = 40 \<or> x = 112"
    unfolding r_def by blast
  from conditions_of_scoped [OF x(2), of xs] x(1) obtain zs Y where
    cz: "c = x # zs" and dec: "r = c @ Y" and ny: "\<forall>Y'. Y \<noteq> 40 # Y'"
    unfolding c_def by auto
  from cz have ne: "c \<noteq> []" by simp
  from dec have pre: "take (length c) r = c" by simp
  from ne have shape: "injectProjectConstraintAtEnd r p
      = u ''('' @ c @ u '') AND project = '' @ p
        @ (if orderBy (splitOrderBy r) = [] then [] else u '' '' @ orderBy (splitOrderBy r))"
    unfolding c_def by (simp add: inject_shape)
  have neq: "injectProjectConstraintAtEnd r p \<noteq> r"
  proof
    assume "injectProjectConstraintAtEnd r p = r"
    with shape dec have "40 # c @ (u '') AND project = '' @ p
        @ (if orderBy (splitOrderBy r) = [] then [] else u '' '' @ orderBy (splitOrderBy r))) = c @ Y"
      by (simp add: u_simps)
    from paren_shift [OF this] ny show False by blast
  qed
  have ex: "injectProjectConstraintAtEnd (injectProjectConstraintAtEnd (u ''status = Open'') (u ''PROJ'')) (u ''PROJ'')
       = u ''((status = Open) AND project = PROJ) AND project = PROJ''"
    by (simp add: scope_eval)
  from ne pre shape neq ex show ?thesis unfolding r_def c_def by blast
qed

section \<open>Facts about the new-issue tracker and the fetch loop\<close>

lemma trackLoop_known:
  "snd (trackLoop is b (n, K)) = K \<union> issueId ` set is"
  by (induction "is" arbitrary: n K) auto

lemma trackLoop_initial:
  "fst (trackLoop is True (n, K)) = n"
  by (induction "is" arbitrary: n K) auto

lemma trackLoop_new:
  "set (fst (trackLoop is False (n, K))) = set n \<union> (issueId ` set is - K)"
  by (induction "is" arbitrary: n K) auto

lemma trackLoop_new_any:
  "set (fst (trackLoop is b (n, K))) \<subseteq> set n \<union> (issueId ` set is - K)"
  by (cases b) (simp_all add: trackLoop_initial trackLoop_new)

lemma trackNewIssues_alt:
  "trackNewIssues is b st =
     (if fst (trackLoop is b ([], knownIssueIds st)) \<noteq> []
      then st\<lparr>knownIssueIds := snd (trackLoop is b ([], knownIssueIds st)),
              newIssueIds := newIssueIds st \<union> set (fst (trackLoop is b ([], knownIssueIds st)))\<rparr>
      else st\<lparr>knownIssueIds := snd (trackLoop is b ([], knownIssueIds st))\<rparr>)"
  by (simp add: trackNewIssues_def split: prod.splits)

lemma trackNewIssues_known [simp]:
  "knownIssueIds (trackNewIssues is b st) = knownIssueIds st \<union> issueId ` set is"
  by (simp add: trackNewIssues_alt trackLoop_known)

lemma trackNewIssues_new_initial [simp]:
  "newIssueIds (trackNewIssues is True st) = newIssueIds st"
  by (simp add: trackNewIssues_alt trackLoop_initial)

lemma trackNewIssues_new:
  "newIssueIds (trackNewIssues is False st) = newIssueIds st \<union> (issueId ` set is - knownIssueIds st)"
proof (cases "fst (trackLoop is False ([], knownIssueIds st)) = []")
  case True
  with trackLoop_new [of "is" "[]" "knownIssueIds st"]
  have "issueId ` set is - knownIssueIds st = {}" by simp
  with True show ?thesis by (auto simp add: trackNewIssues_alt)
next
  case False
  with trackLoop_new [of "is" "[]" "knownIssueIds st"]
  show ?thesis by (simp add: trackNewIssues_alt)
qed

lemma trackNewIssues_frame [simp]:
  "config (trackNewIssues is b st) = config st"
  "issueCache (trackNewIssues is b st) = issueCache st"
  "issueCacheRef (trackNewIssues is b st) = issueCacheRef st"
  "error (trackNewIssues is b st) = error st"
  "console (trackNewIssues is b st) = console st"
  "remoteCalls (trackNewIssues is b st) = remoteCalls st"
  "jiraClient (trackNewIssues is b st) = jiraClient st"
  "loading (trackNewIssues is b st) = loading st"
  "validationErrors (trackNewIssues is b st) = validationErrors st"
  "lastRefresh (trackNewIssues is b st) = lastRefresh st"
  by (simp_all add: trackNewIssues_def split: prod.splits)

lemma grows_refl [simp]: "grows st st"
  by (simp add: grows_def)

lemma grows_trans: "grows a b \<Longrightarrow> grows b c \<Longrightarrow> grows a c"
  unfolding grows_def by blast

lemma grows_track: "grows st (trackNewIssues is b st)"
  by (cases b) (auto simp: grows_def trackNewIssues_new)

lemma fetchIssuesForTab_frame:
  assumes "fetchIssuesForTab env i st = (r, st')"
  shows "config st' = config st" "issueCache st' = issueCache st" "issueCacheRef st' = issueCacheRef st"
    "error st' = error st" "console st' = console st" "knownIssueIds st' = knownIssueIds st"
    "newIssueIds st' = newIssueIds st" "loading st' = loading st"
    "validationErrors st' = validationErrors st" "lastRefresh st' = lastRefresh st"
  using assms
  by (auto simp: fetchIssuesForTab_def Let_def split: if_splits option.splits)


lemma fetchLoop_activity:
  "int i = activityTabIndex (config st) \<Longrightarrow>
   fetchLoop env now isInitial force (i # rest) (nc, df, st)
     = fetchLoop env now isInitial force rest (nc, df, st)"
  by simp

lemma fetchLoop_fresh:
  "int i \<noteq> activityTabIndex (config st) \<Longrightarrow> isFresh force isInitial now (issueCacheRef st i) \<Longrightarrow>
   fetchLoop env now isInitial force (i # rest) (nc, df, st)
     = fetchLoop env now isInitial force rest (nc(i := issueCacheRef st i), df, st)"
  by (simp add: Let_def)

lemma fetchLoop_fail:
  "int i \<noteq> activityTabIndex (config st) \<Longrightarrow> \<not> isFresh force isInitial now (issueCacheRef st i) \<Longrightarrow>
   fetchIssuesForTab env i (st\<lparr>loadingProgress := loadingText (tabs (config st)) i\<rparr>) = (Inl m, st2) \<Longrightarrow>
   fetchLoop env now isInitial force (i # rest) (nc, df, st) = (Some m, nc, df, st2)"
  by (simp add: Let_def)

lemma fetchLoop_ok:
  "int i \<noteq> activityTabIndex (config st) \<Longrightarrow> \<not> isFresh force isInitial now (issueCacheRef st i) \<Longrightarrow>
   fetchIssuesForTab env i (st\<lparr>loadingProgress := loadingText (tabs (config st)) i\<rparr>) = (Inr is, st2) \<Longrightarrow>
   fetchLoop env now isInitial force (i # rest) (nc, df, st)
     = fetchLoop env now isInitial force rest
         (nc(i \<mapsto> \<lparr>issues = is, fetchedAt = now\<rparr>), True, trackNewIssues is isInitial st2)"
  by (simp add: Let_def)


declare fetchLoop.simps(2) [simp del]

lemma fetchLoop_rel:
  assumes refl: "\<And>s. R s s" and trans: "\<And>a b c. R a b \<Longrightarrow> R b c \<Longrightarrow> R a c"
    and fetch: "\<And>i s r s2.
      fetchIssuesForTab env i (s\<lparr>loadingProgress := loadingText (tabs (config s)) i\<rparr>) = (r, s2) \<Longrightarrow> R s s2"
    and track: "\<And>is s. R s (trackNewIssues is isInitial s)"
  shows "fetchLoop env now isInitial force idxs (nc, df, st) = (r, nc', df', st') \<Longrightarrow> R st st'"
proof (induction idxs arbitrary: nc df st)
  case Nil
  then show ?case by (simp add: refl)
next
  case (Cons i rest)
  show ?case
  proof (cases "int i = activityTabIndex (config st)")
    case True
    with Cons.prems have "fetchLoop env now isInitial force rest (nc, df, st) = (r, nc', df', st')"
      by (simp add: fetchLoop_activity)
    then show ?thesis by (rule Cons.IH)
  next
    case na: False
    show ?thesis
    proof (cases "isFresh force isInitial now (issueCacheRef st i)")
      case True
      with na Cons.prems
      have "fetchLoop env now isInitial force rest (nc(i := issueCacheRef st i), df, st) = (r, nc', df', st')"
        by (simp add: fetchLoop_fresh)
      then show ?thesis by (rule Cons.IH)
    next
      case nf: False
      obtain res st2 where f: "fetchIssuesForTab env i (st\<lparr>loadingProgress := loadingText (tabs (config st)) i\<rparr>) = (res, st2)"
        by (cases "fetchIssuesForTab env i (st\<lparr>loadingProgress := loadingText (tabs (config st)) i\<rparr>)") blast
      have r2: "R st st2" using f by (rule fetch)
      show ?thesis
      proof (cases res)
        case (Inl m)
        with f na nf Cons.prems have "st' = st2" by (simp add: fetchLoop_fail)
        with r2 show ?thesis by simp
      next
        case (Inr iss)
        with f na nf Cons.prems have "fetchLoop env now isInitial force rest
            (nc(i \<mapsto> \<lparr>issues = iss, fetchedAt = now\<rparr>), True, trackNewIssues iss isInitial st2) = (r, nc', df', st')"
          by (simp add: fetchLoop_ok)
        then have "R (trackNewIssues iss isInitial st2) st'" by (rule Cons.IH)
        with r2 track [of st2 iss] show ?thesis by (blast intro: trans)
      qed
    qed
  qed
qed

lemma fetchLoop_frame:
  assumes "fetchLoop env now isInitial force idxs (nc, df, st) = (r, nc', df', st')"
  shows "config st' = config st" "issueCache st' = issueCache st" "issueCacheRef st' = issueCacheRef st"
    "error st' = error st" "console st' = console st" "validationErrors st' = validationErrors st"
    "lastRefresh st' = lastRefresh st"
proof -
  let ?R = "\<lambda>s s'. config s' = config s \<and> issueCache s' = issueCache s \<and> issueCacheRef s' = issueCacheRef s
     \<and> error s' = error s \<and> console s' = console s \<and> validationErrors s' = validationErrors s
     \<and> lastRefresh s' = lastRefresh s"
  have "?R st st'"
  proof (rule fetchLoop_rel [where R = ?R, OF _ _ _ _ assms])
    fix i s res s2
    assume "fetchIssuesForTab env i (s\<lparr>loadingProgress := loadingText (tabs (config s)) i\<rparr>) = (res, s2)"
    from fetchIssuesForTab_frame [OF this] show "?R s s2" by simp
  qed simp_all
  then show "config st' = config st" "issueCache st' = issueCache st" "issueCacheRef st' = issueCacheRef st"
    "error st' = error st" "console st' = console st" "validationErrors st' = validationErrors st"
    "lastRefresh st' = lastRefresh st" by simp_all
qed

lemma fetchLoop_grows:
  assumes "fetchLoop env now isInitial force idxs (nc, df, st) = (r, nc', df', st')"
  shows "grows st st'"
proof (rule fetchLoop_rel [where R = grows, OF _ _ _ _ assms])
  fix i s res s2
  assume "fetchIssuesForTab env i (s\<lparr>loadingProgress := loadingText (tabs (config s)) i\<rparr>) = (res, s2)"
  from fetchIssuesForTab_frame(6,7) [OF this] show "grows s s2" by (simp add: grows_def)
qed (auto intro: grows_trans grows_track)

lemma fetchIssuesForTab_calls:
  assumes "fetchIssuesForTab env i s = (res, s2)"
  shows "\<exists>new. remoteCalls s2 = remoteCalls s @ new \<and> fst ` set new \<subseteq> {i}"
  using assms
  by (auto simp: fetchIssuesForTab_def Let_def split: if_splits option.splits)

lemma fetchLoop_calls:
  "fetchLoop env now isInitial force idxs (nc, df, st) = (r, nc', df', st') \<Longrightarrow>
   \<exists>new. remoteCalls st' = remoteCalls st @ new
     \<and> fst ` set new \<subseteq> {j \<in> set idxs. int j \<noteq> activityTabIndex (config st)
                                \<and> \<not> isFresh force isInitial now (issueCacheRef st j)}"
proof (induction idxs arbitrary: nc df st)
  case Nil
  then show ?case by simp
next
  case (Cons i rest)
  show ?case
  proof (cases "int i = activityTabIndex (config st)")
    case True
    with Cons.prems have "fetchLoop env now isInitial force rest (nc, df, st) = (r, nc', df', st')"
      by (simp add: fetchLoop_activity)
    from Cons.IH [OF this] show ?thesis by auto
  next
    case na: False
    show ?thesis
    proof (cases "isFresh force isInitial now (issueCacheRef st i)")
      case True
      with na Cons.prems
      have "fetchLoop env now isInitial force rest (nc(i := issueCacheRef st i), df, st) = (r, nc', df', st')"
        by (simp add: fetchLoop_fresh)
      from Cons.IH [OF this] show ?thesis by auto
    next
      case nf: False
      let ?s1 = "st\<lparr>loadingProgress := loadingText (tabs (config st)) i\<rparr>"
      obtain res st2 where f: "fetchIssuesForTab env i ?s1 = (res, st2)"
        by (cases "fetchIssuesForTab env i ?s1") blast
      from fetchIssuesForTab_calls [OF f] obtain new1 where
        n1: "remoteCalls st2 = remoteCalls st @ new1" "fst ` set new1 \<subseteq> {i}" by auto
      from fetchIssuesForTab_frame(1,3) [OF f] have fr: "config st2 = config st" "issueCacheRef st2 = issueCacheRef st"
        by simp_all
      show ?thesis
      proof (cases res)
        case (Inl m)
        with f na nf Cons.prems have "st' = st2" by (simp add: fetchLoop_fail)
        with n1 na nf show ?thesis by auto
      next
        case (Inr iss)
        with f na nf Cons.prems have "fetchLoop env now isInitial force rest
            (nc(i \<mapsto> \<lparr>issues = iss, fetchedAt = now\<rparr>), True, trackNewIssues iss isInitial st2) = (r, nc', df', st')"
          by (simp add: fetchLoop_ok)
        from Cons.IH [OF this] fr obtain new2 where
          n2: "remoteCalls st' = remoteCalls st2 @ new2"
              "fst ` set new2 \<subseteq> {j \<in> set rest. int j \<noteq> activityTabIndex (config st)
                                \<and> \<not> isFresh force isInitial now (issueCacheRef st j)}"
          by auto
        from n1 n2(1) have "remoteCalls st' = remoteCalls st @ (new1 @ new2)" by simp
        moreover from n1(2) n2(2) na nf
        have "fst ` set (new1 @ new2) \<subseteq> {j \<in> set (i # rest). int j \<noteq> activityTabIndex (config st)
                                \<and> \<not> isFresh force isInitial now (issueCacheRef st j)}"
          by auto
        ultimately show ?thesis by blast
      qed
    qed
  qed
qed

lemma fetchLoop_newCache_fresh:
  "fetchLoop env now isInitial force idxs (nc, df, st) = (r, nc', df', st') \<Longrightarrow>
   r = None \<Longrightarrow> int i \<noteq> activityTabIndex (config st) \<Longrightarrow>
   isFresh force isInitial now (issueCacheRef st i) \<Longrightarrow>
   nc' i = (if i \<in> set idxs then issueCacheRef st i else nc i)"
proof (induction idxs arbitrary: nc df st)
  case Nil
  then show ?case by simp
next
  case (Cons j rest)
  show ?case
  proof (cases "int j = activityTabIndex (config st)")
    case True
    with Cons.prems(3) have ji: "j \<noteq> i" by auto
    from True Cons.prems(1) have "fetchLoop env now isInitial force rest (nc, df, st) = (r, nc', df', st')"
      by (simp add: fetchLoop_activity)
    from Cons.IH [OF this Cons.prems(2,3,4)] ji show ?thesis by simp
  next
    case na: False
    show ?thesis
    proof (cases "isFresh force isInitial now (issueCacheRef st j)")
      case True
      from True na Cons.prems(1)
      have "fetchLoop env now isInitial force rest (nc(j := issueCacheRef st j), df, st) = (r, nc', df', st')"
        by (simp add: fetchLoop_fresh)
      from Cons.IH [OF this Cons.prems(2,3,4)] show ?thesis by simp
    next
      case nf: False
      with Cons.prems(4) have ji: "j \<noteq> i" by auto
      let ?s1 = "st\<lparr>loadingProgress := loadingText (tabs (config st)) j\<rparr>"
      obtain res st2 where f: "fetchIssuesForTab env j ?s1 = (res, st2)"
        by (cases "fetchIssuesForTab env j ?s1") blast
      from fetchIssuesForTab_frame(1,3) [OF f] have fr: "config st2 = config st" "issueCacheRef st2 = issueCacheRef st"
        by simp_all
      show ?thesis
      proof (cases res)
        case (Inl m)
        with f na nf Cons.prems(1,2) show ?thesis by (simp add: fetchLoop_fail)
      next
        case (Inr iss)
        with f na nf Cons.prems(1) have run: "fetchLoop env now isInitial force rest
            (nc(j \<mapsto> \<lparr>issues = iss, fetchedAt = now\<rparr>), True, trackNewIssues iss isInitial st2) = (r, nc', df', st')"
          by (simp add: fetchLoop_ok)
        from Cons.IH [OF run Cons.prems(2)] Cons.prems(3,4) fr ji show ?thesis by simp
      qed
    qed
  qed
qed

declare show_nat.simps [simp del]

lemmas example_defs = viewOpen_def viewMine_def oneViewConfig_def twoViewConfig_def issueA_def
  issueB_def issueC_def serviceUp_def serviceDown_def withCache_def initialApp_def

lemmas fetch_eval = fetchAllTabs_def fetchLoop.simps fetchIssuesForTab_def searchWithProjectConstraint_def
  trackNewIssues_def tabs_def activityTabIndex_def activityEnabled_def isFresh_def
  ISSUE_CACHE_TTL_MS_def loadingText_def show_nat.simps Let_def

lemma scoped_open: "injectProjectConstraintAtEnd (u ''status = Open'') (u ''PROJ'') = u ''(status = Open) AND project = PROJ''"
  by (simp add: scope_eval)

lemma scoped_mine: "injectProjectConstraintAtEnd (u ''assignee = currentUser() ORDER BY updated DESC'') (u ''PROJ'')
   = u ''(assignee = currentUser()) AND project = PROJ ORDER BY updated DESC''"
  by (simp add: scope_eval)

lemma fetchLoop_result:
  "\<exists>r nc' df' st'. fetchLoop env now isInitial force idxs acc = (r, nc', df', st')"
  by (metis prod_cases4)

lemma fetchAllTabs_success:
  assumes "fetchLoop env now isInitial force [0..<length (tabs (config st))] (Map.empty, False, st)
             = (None, nc', df', st')"
  shows "fetchAllTabs env now doneAt isInitial force st
           = st'\<lparr>issueCache := issueCache st ++ nc',
                lastRefresh := (if df' \<or> isInitial then doneAt else lastRefresh st),
                loading := False\<rparr>"
  using assms fetchLoop_frame(2,7) [OF assms] by (simp add: fetchAllTabs_def)

lemma fetchAllTabs_failure:
  assumes "fetchLoop env now isInitial force [0..<length (tabs (config st))] (Map.empty, False, st)
             = (Some m, nc', df', st')"
  shows "fetchAllTabs env now doneAt isInitial force st = st'\<lparr>error := Some m, loading := False\<rparr>"
    and "issueCache (fetchAllTabs env now doneAt isInitial force st) = issueCache st"
    and "error (fetchAllTabs env now doneAt isInitial force st) = Some m"
    and "console (fetchAllTabs env now doneAt isInitial force st) = console st"
  using assms fetchLoop_frame(2,5) [OF assms] by (simp_all add: fetchAllTabs_def)

lemma fetchAllTabs_remoteCalls:
  assumes "fetchLoop env now isInitial force [0..<length (tabs (config st))] (Map.empty, False, st)
             = (r, nc', df', st')"
  shows "remoteCalls (fetchAllTabs env now doneAt isInitial force st) = remoteCalls st'"
  using assms by (cases r) (simp_all add: fetchAllTabs_def)

lemma fetchAllTabs_grows: "grows st (fetchAllTabs env now doneAt isInitial force st)"
proof -
  obtain r nc' df' st' where
    run: "fetchLoop env now isInitial force [0..<length (tabs (config st))] (Map.empty, False, st)
            = (r, nc', df', st')"
    using fetchLoop_result by blast
  from fetchLoop_grows [OF run] have "grows st st'" .
  moreover have "knownIssueIds (fetchAllTabs env now doneAt isInitial force st) = knownIssueIds st'"
    "newIssueIds (fetchAllTabs env now doneAt isInitial force st) = newIssueIds st'"
    using run by (cases r; simp add: fetchAllTabs_def)+
  ultimately show ?thesis by (simp add: grows_def)
qed

lemma view_index_not_activity:
  "i < length (views c) \<Longrightarrow> int i \<noteq> activityTabIndex c"
  by (simp add: activityTabIndex_def tabs_def)

lemma view_index_is_tab:
  "i < length (views c) \<Longrightarrow> i \<in> set [0..<length (tabs c)]"
  by (simp add: tabs_def)

lemma forced_not_fresh: "force \<or> isInitial \<Longrightarrow> \<not> isFresh force isInitial now e"
  by (auto simp: isFresh_def)

lemma fetchIssuesForTab_view:
  assumes "i < length (views (config s))" and "jiraClient s \<or> hasCredentials env"
  shows "fetchIssuesForTab env i s
           = (searchIssues env (length (remoteCalls s))
                (injectProjectConstraintAtEnd (jql (views (config s) ! i)) (project (config s))),
              s\<lparr>jiraClient := True,
                 remoteCalls := remoteCalls s
                   @ [(i, injectProjectConstraintAtEnd (jql (views (config s) ! i)) (project (config s)))]\<rparr>)"
  using assms view_index_not_activity [OF assms(1)]
  by (auto simp: fetchIssuesForTab_def Let_def searchWithProjectConstraint_def)

lemma fetchIssuesForTab_no_client:
  assumes "\<not> jiraClient s" and "\<not> hasCredentials env"
  shows "fetchIssuesForTab env i s = (Inl missingCredentials, s)"
  using assms by (simp add: fetchIssuesForTab_def)

text \<open>One forced visit of a standard view: the search is sent whatever its answer.\<close>

lemma forced_visit:
  assumes "i < length (views (config st))" and "force \<or> isInitial"
    and "jiraClient st \<or> hasCredentials env"
  shows "remoteCalls (snd (snd (snd (fetchLoop env now isInitial force [i] (nc, df, st)))))
           = remoteCalls st
             @ [(i, injectProjectConstraintAtEnd (jql (views (config st) ! i)) (project (config st)))]"
proof -
  let ?s1 = "st\<lparr>loadingProgress := loadingText (tabs (config st)) i\<rparr>"
  let ?q = "injectProjectConstraintAtEnd (jql (views (config st) ! i)) (project (config st))"
  let ?s2 = "?s1\<lparr>jiraClient := True, remoteCalls := remoteCalls st @ [(i, ?q)]\<rparr>"
  have na: "int i \<noteq> activityTabIndex (config st)" by (rule view_index_not_activity [OF assms(1)])
  have nf: "\<not> isFresh force isInitial now (issueCacheRef st i)" by (rule forced_not_fresh [OF assms(2)])
  have f: "fetchIssuesForTab env i ?s1 = (searchIssues env (length (remoteCalls st)) ?q, ?s2)"
    using fetchIssuesForTab_view [of i ?s1 env] assms(1,3) by simp
  show ?thesis
  proof (cases "searchIssues env (length (remoteCalls st)) ?q")
    case (Inl m)
    with f have f': "fetchIssuesForTab env i ?s1 = (Inl m, ?s2)" by simp
    from fetchLoop_fail [OF na nf f']
    have "fetchLoop env now isInitial force [i] (nc, df, st) = (Some m, nc, df, ?s2)" .
    then show ?thesis by simp
  next
    case (Inr iss)
    with f have f': "fetchIssuesForTab env i ?s1 = (Inr iss, ?s2)" by simp
    from fetchLoop_ok [OF na nf f']
    have "fetchLoop env now isInitial force [i] (nc, df, st)
        = fetchLoop env now isInitial force []
            (nc(i \<mapsto> \<lparr>issues = iss, fetchedAt = now\<rparr>), True, trackNewIssues iss isInitial ?s2)" .
    then show ?thesis by simp
  qed
qed


lemma forced_cycle_from:
  assumes "force \<or> isInitial"
  shows "config s = c \<Longrightarrow> k \<le> i \<Longrightarrow> i < length (views c) \<Longrightarrow> jiraClient s \<or> hasCredentials env \<Longrightarrow>
     fetchLoop env now isInitial force [k..<length (tabs c)] (nc, df, s) = (r, nc', df', s') \<Longrightarrow>
     (i \<in> fst ` set (drop (length (remoteCalls s)) (remoteCalls s')))
       = (\<forall>j. k \<le> j \<and> j < i \<longrightarrow>
            (\<exists>iss. searchIssues env (length (remoteCalls s) + (j - k))
                     (injectProjectConstraintAtEnd (jql (views c ! j)) (project c)) = Inr iss))"
proof (induction "i - k" arbitrary: k s nc df)
  case 0
  then have ik: "i = k" by simp
  let ?q = "injectProjectConstraintAtEnd (jql (views c ! k)) (project c)"
  let ?s1 = "s\<lparr>loadingProgress := loadingText (tabs c) k\<rparr>"
  let ?s2 = "?s1\<lparr>jiraClient := True, remoteCalls := remoteCalls s @ [(k, ?q)]\<rparr>"
  from "0.prems"(3) ik have kn: "k < length (views c)" by simp
  then have kt: "k < length (tabs c)" by (simp add: tabs_def)
  then have up: "[k..<length (tabs c)] = k # [Suc k..<length (tabs c)]" by (rule upt_conv_Cons)
  have na: "int k \<noteq> activityTabIndex (config s)"
    using view_index_not_activity [of k c] kn "0.prems"(1) by simp
  have nf: "\<not> isFresh force isInitial now (issueCacheRef s k)" by (rule forced_not_fresh [OF assms])
  have f: "fetchIssuesForTab env k ?s1 = (searchIssues env (length (remoteCalls s)) ?q, ?s2)"
    using fetchIssuesForTab_view [of k ?s1 env] kn "0.prems"(1,4) by simp
  have "k \<in> fst ` set (drop (length (remoteCalls s)) (remoteCalls s'))"
  proof (cases "searchIssues env (length (remoteCalls s)) ?q")
    case (Inl m)
    with f have f': "fetchIssuesForTab env k (s\<lparr>loadingProgress := loadingText (tabs (config s)) k\<rparr>) = (Inl m, ?s2)"
      using "0.prems"(1) by simp
    from fetchLoop_fail [OF na nf f'] "0.prems"(5) up have "s' = ?s2" by simp
    then show ?thesis by simp
  next
    case (Inr iss)
    with f have f': "fetchIssuesForTab env k (s\<lparr>loadingProgress := loadingText (tabs (config s)) k\<rparr>) = (Inr iss, ?s2)"
      using "0.prems"(1) by simp
    from fetchLoop_ok [OF na nf f'] "0.prems"(5) up
    have run: "fetchLoop env now isInitial force [Suc k..<length (tabs c)]
        (nc(k \<mapsto> \<lparr>issues = iss, fetchedAt = now\<rparr>), True, trackNewIssues iss isInitial ?s2) = (r, nc', df', s')"
      by simp
    from fetchLoop_calls [OF run] obtain new2 where
      "remoteCalls s' = remoteCalls (trackNewIssues iss isInitial ?s2) @ new2" by blast
    then have "remoteCalls s' = remoteCalls s @ (k, ?q) # new2" by simp
    then show ?thesis by simp
  qed
  with ik show ?case by auto
next
  case (Suc d)
  then have lt: "k < i" and d: "d = i - Suc k" by simp_all
  let ?q = "injectProjectConstraintAtEnd (jql (views c ! k)) (project c)"
  let ?s1 = "s\<lparr>loadingProgress := loadingText (tabs c) k\<rparr>"
  let ?s2 = "?s1\<lparr>jiraClient := True, remoteCalls := remoteCalls s @ [(k, ?q)]\<rparr>"
  from Suc.prems(3) lt have kn: "k < length (views c)" by simp
  then have kt: "k < length (tabs c)" by (simp add: tabs_def)
  then have up: "[k..<length (tabs c)] = k # [Suc k..<length (tabs c)]" by (rule upt_conv_Cons)
  have na: "int k \<noteq> activityTabIndex (config s)"
    using view_index_not_activity [of k c] kn Suc.prems(1) by simp
  have nf: "\<not> isFresh force isInitial now (issueCacheRef s k)" by (rule forced_not_fresh [OF assms])
  have f: "fetchIssuesForTab env k ?s1 = (searchIssues env (length (remoteCalls s)) ?q, ?s2)"
    using fetchIssuesForTab_view [of k ?s1 env] kn Suc.prems(1,4) by simp
  show ?case
  proof (cases "searchIssues env (length (remoteCalls s)) ?q")
    case (Inl m)
    with f have f': "fetchIssuesForTab env k (s\<lparr>loadingProgress := loadingText (tabs (config s)) k\<rparr>) = (Inl m, ?s2)"
      using Suc.prems(1) by simp
    from fetchLoop_fail [OF na nf f'] Suc.prems(5) up have "s' = ?s2" by simp
    then have "drop (length (remoteCalls s)) (remoteCalls s') = [(k, ?q)]" by simp
    with lt have l: "i \<notin> fst ` set (drop (length (remoteCalls s)) (remoteCalls s'))" by simp
    have "\<not> (\<forall>j. k \<le> j \<and> j < i \<longrightarrow>
            (\<exists>iss. searchIssues env (length (remoteCalls s) + (j - k))
                     (injectProjectConstraintAtEnd (jql (views c ! j)) (project c)) = Inr iss))"
    proof
      assume "\<forall>j. k \<le> j \<and> j < i \<longrightarrow>
            (\<exists>iss. searchIssues env (length (remoteCalls s) + (j - k))
                     (injectProjectConstraintAtEnd (jql (views c ! j)) (project c)) = Inr iss)"
      with lt have "\<exists>iss. searchIssues env (length (remoteCalls s) + (k - k)) ?q = Inr iss" by blast
      with Inl show False by simp
    qed
    with l show ?thesis by simp
  next
    case (Inr iss)
    let ?s3 = "trackNewIssues iss isInitial ?s2"
    from Inr f have f': "fetchIssuesForTab env k (s\<lparr>loadingProgress := loadingText (tabs (config s)) k\<rparr>) = (Inr iss, ?s2)"
      using Suc.prems(1) by simp
    from fetchLoop_ok [OF na nf f'] Suc.prems(5) up
    have run: "fetchLoop env now isInitial force [Suc k..<length (tabs c)]
        (nc(k \<mapsto> \<lparr>issues = iss, fetchedAt = now\<rparr>), True, ?s3) = (r, nc', df', s')"
      by simp
    have c3: "config ?s3 = c" using Suc.prems(1) by simp
    have j3: "jiraClient ?s3 \<or> hasCredentials env" by simp
    have r3: "remoteCalls ?s3 = remoteCalls s @ [(k, ?q)]" by simp
    from lt have ki: "Suc k \<le> i" by simp
    from Suc.hyps(1) [OF d c3 ki Suc.prems(3) j3 run]
    have ih: "(i \<in> fst ` set (drop (length (remoteCalls ?s3)) (remoteCalls s')))
       = (\<forall>j. Suc k \<le> j \<and> j < i \<longrightarrow>
            (\<exists>iss. searchIssues env (length (remoteCalls ?s3) + (j - Suc k))
                     (injectProjectConstraintAtEnd (jql (views c ! j)) (project c)) = Inr iss))" .
    from fetchLoop_calls [OF run] obtain new2 where
      n2: "remoteCalls s' = remoteCalls ?s3 @ new2" by blast
    with r3 have "drop (length (remoteCalls s)) (remoteCalls s') = (k, ?q) # new2"
      "drop (length (remoteCalls ?s3)) (remoteCalls s') = new2" by simp_all
    with lt have lhs: "(i \<in> fst ` set (drop (length (remoteCalls s)) (remoteCalls s')))
        = (i \<in> fst ` set (drop (length (remoteCalls ?s3)) (remoteCalls s')))" by auto
    have idx: "length (remoteCalls ?s3) + (j - Suc k) = length (remoteCalls s) + (j - k)" if "Suc k \<le> j" for j
      using that r3 by simp
    have rhs: "(\<forall>j. Suc k \<le> j \<and> j < i \<longrightarrow>
            (\<exists>iss. searchIssues env (length (remoteCalls ?s3) + (j - Suc k))
                     (injectProjectConstraintAtEnd (jql (views c ! j)) (project c)) = Inr iss))
        = (\<forall>j. k \<le> j \<and> j < i \<longrightarrow>
            (\<exists>iss. searchIssues env (length (remoteCalls s) + (j - k))
                     (injectProjectConstraintAtEnd (jql (views c ! j)) (project c)) = Inr iss))"
    proof
      assume a: "\<forall>j. Suc k \<le> j \<and> j < i \<longrightarrow>
            (\<exists>iss. searchIssues env (length (remoteCalls ?s3) + (j - Suc k))
                     (injectProjectConstraintAtEnd (jql (views c ! j)) (project c)) = Inr iss)"
      show "\<forall>j. k \<le> j \<and> j < i \<longrightarrow>
            (\<exists>iss. searchIssues env (length (remoteCalls s) + (j - k))
                     (injectProjectConstraintAtEnd (jql (views c ! j)) (project c)) = Inr iss)"
      proof (intro allI impI)
        fix j assume j: "k \<le> j \<and> j < i"
        show "\<exists>iss. searchIssues env (length (remoteCalls s) + (j - k))
                     (injectProjectConstraintAtEnd (jql (views c ! j)) (project c)) = Inr iss"
        proof (cases "j = k")
          case True
          with Inr show ?thesis by simp
        next
          case False
          with j have sk: "Suc k \<le> j" by simp
          with a j have "\<exists>iss. searchIssues env (length (remoteCalls ?s3) + (j - Suc k))
                     (injectProjectConstraintAtEnd (jql (views c ! j)) (project c)) = Inr iss" by blast
          then show ?thesis by (simp only: idx [OF sk])
        qed
      qed
    next
      assume a: "\<forall>j. k \<le> j \<and> j < i \<longrightarrow>
            (\<exists>iss. searchIssues env (length (remoteCalls s) + (j - k))
                     (injectProjectConstraintAtEnd (jql (views c ! j)) (project c)) = Inr iss)"
      show "\<forall>j. Suc k \<le> j \<and> j < i \<longrightarrow>
            (\<exists>iss. searchIssues env (length (remoteCalls ?s3) + (j - Suc k))
                     (injectProjectConstraintAtEnd (jql (views c ! j)) (project c)) = Inr iss)"
      proof (intro allI impI)
        fix j assume j: "Suc k \<le> j \<and> j < i"
        then have "k \<le> j \<and> j < i" by simp
        with a have "\<exists>iss. searchIssues env (length (remoteCalls s) + (j - k))
                     (injectProjectConstraintAtEnd (jql (views c ! j)) (project c)) = Inr iss" by blast
        moreover from j have sk: "Suc k \<le> j" by simp
        ultimately show "\<exists>iss. searchIssues env (length (remoteCalls ?s3) + (j - Suc k))
                     (injectProjectConstraintAtEnd (jql (views c ! j)) (project c)) = Inr iss"
          by (simp only: idx [OF sk])
      qed
    qed
    from lhs ih rhs show ?thesis by simp
  qed
qed


lemma forced_cycle_no_client:
  assumes "force \<or> isInitial" and "i < length (views (config st))"
    and "\<not> jiraClient st" and "\<not> hasCredentials env"
  shows "remoteCalls (fetchAllTabs env now doneAt isInitial force st) = remoteCalls st"
proof -
  let ?s1 = "st\<lparr>loadingProgress := loadingText (tabs (config st)) 0\<rparr>"
  from assms(2) have z: "0 < length (views (config st))" by linarith
  then have "0 < length (tabs (config st))" by (simp add: tabs_def)
  then have up: "[0..<length (tabs (config st))] = 0 # [Suc 0..<length (tabs (config st))]"
    by (rule upt_conv_Cons)
  have na: "int 0 \<noteq> activityTabIndex (config st)" by (rule view_index_not_activity [OF z])
  have nf: "\<not> isFresh force isInitial now (issueCacheRef st 0)" by (rule forced_not_fresh [OF assms(1)])
  have f: "fetchIssuesForTab env 0 ?s1 = (Inl missingCredentials, ?s1)"
    using assms(3,4) by (simp add: fetchIssuesForTab_no_client)
  from fetchLoop_fail [OF na nf f]
  have run: "fetchLoop env now isInitial force [0..<length (tabs (config st))] (Map.empty, False, st)
      = (Some missingCredentials, Map.empty, False, ?s1)"
    by (simp add: up)
  from fetchAllTabs_remoteCalls [OF run] show ?thesis by simp
qed

text \<open>
  Claim C2, as amended. For a standard view \<open>i\<close> (an index below the number of views).
  The fresh half, with \<open>force = false\<close> and \<open>isInitial = false\<close>: when the cache and its
  ref hold the entry \<open>e\<close> for \<open>i\<close> and \<open>e\<close> is less than 30 s old, the visit of \<open>i\<close> by the
  loop carries \<open>e\<close> over, sends no search and leaves the state as it was; the cycle of
  \<open>fetchAllTabs\<close> sends no search for \<open>i\<close> and leaves the entry of \<open>i\<close> as it was; when
  every standard view is fresh, the cycle sends no search at all.
  The forced half, with \<open>force = true\<close> or \<open>isInitial = true\<close>: the visit of \<open>i\<close> by the
  loop sends the search of \<open>i\<close>, whatever the age of its entry and whatever the service
  answers, when the client is there or can be built from the credentials, and sends nothing
  otherwise; the cycle of \<open>fetchAllTabs\<close> sends the search of \<open>i\<close> exactly when the client
  is there or can be built and the search of every view before \<open>i\<close> was answered with
  issues, the \<open>j\<close>-th search of the cycle being the search of view \<open>j\<close>.
\<close>

theorem C2_fresh_or_forced:
  assumes "i < length (views (config st))"
  shows
   "(issueCacheRef st i = Some e \<and> issueCache st i = Some e \<and> now - fetchedAt e < 30000 \<longrightarrow>
       fetchLoop env now False False [i] (nc, df, st) = (None, nc(i \<mapsto> e), df, st)
       \<and> i \<notin> fst ` set (drop (length (remoteCalls st))
                           (remoteCalls (fetchAllTabs env now doneAt False False st)))
       \<and> issueCache (fetchAllTabs env now doneAt False False st) i = Some e)
    \<and> ((\<forall>j < length (views (config st)). isFresh False False now (issueCacheRef st j)) \<longrightarrow>
         remoteCalls (fetchAllTabs env now doneAt False False st) = remoteCalls st)
    \<and> (force \<or> isInitial \<longrightarrow>
         remoteCalls (snd (snd (snd (fetchLoop env now isInitial force [i] (nc, df, st)))))
           = remoteCalls st
             @ (if jiraClient st \<or> hasCredentials env
                then [(i, injectProjectConstraintAtEnd (jql (views (config st) ! i)) (project (config st)))]
                else []))
    \<and> (force \<or> isInitial \<longrightarrow>
         (i \<in> fst ` set (drop (length (remoteCalls st))
                            (remoteCalls (fetchAllTabs env now doneAt isInitial force st))))
           = ((jiraClient st \<or> hasCredentials env)
              \<and> (\<forall>j < i. \<exists>iss. searchIssues env (length (remoteCalls st) + j)
                      (injectProjectConstraintAtEnd (jql (views (config st) ! j)) (project (config st)))
                    = Inr iss)))"
proof (intro conjI impI)
  assume h: "issueCacheRef st i = Some e \<and> issueCache st i = Some e \<and> now - fetchedAt e < 30000"
  then have fresh: "isFresh False False now (issueCacheRef st i)"
    by (simp add: isFresh_def ISSUE_CACHE_TTL_MS_def)
  from fetchLoop_fresh [OF view_index_not_activity [OF assms] fresh, of env "[]" nc df] h
  show "fetchLoop env now False False [i] (nc, df, st) = (None, nc(i \<mapsto> e), df, st)"
    by simp
  obtain r nc' df' st' where
    run: "fetchLoop env now False False [0..<length (tabs (config st))] (Map.empty, False, st)
            = (r, nc', df', st')"
    using fetchLoop_result by blast
  from fetchLoop_calls [OF run] obtain new where
    new: "remoteCalls st' = remoteCalls st @ new"
         "fst ` set new \<subseteq> {j \<in> set [0..<length (tabs (config st))]. int j \<noteq> activityTabIndex (config st)
                                \<and> \<not> isFresh False False now (issueCacheRef st j)}"
    by blast
  from new(2) fresh have "i \<notin> fst ` set new" by blast
  with new(1) fetchAllTabs_remoteCalls [OF run, of doneAt]
  show "i \<notin> fst ` set (drop (length (remoteCalls st))
                         (remoteCalls (fetchAllTabs env now doneAt False False st)))"
    by simp
  show "issueCache (fetchAllTabs env now doneAt False False st) i = Some e"
  proof (cases r)
    case None
    from fetchLoop_newCache_fresh [OF run None view_index_not_activity [OF assms] fresh]
      view_index_is_tab [OF assms] h
    have "nc' i = Some e" by simp
    with run None show ?thesis by (simp add: fetchAllTabs_success)
  next
    case (Some m)
    with run h show ?thesis by (simp add: fetchAllTabs_failure(2))
  qed
next
  assume all: "\<forall>j < length (views (config st)). isFresh False False now (issueCacheRef st j)"
  obtain r nc' df' st' where
    run: "fetchLoop env now False False [0..<length (tabs (config st))] (Map.empty, False, st)
            = (r, nc', df', st')"
    using fetchLoop_result by blast
  from fetchLoop_calls [OF run] obtain new where
    new: "remoteCalls st' = remoteCalls st @ new"
         "fst ` set new \<subseteq> {j \<in> set [0..<length (tabs (config st))]. int j \<noteq> activityTabIndex (config st)
                                \<and> \<not> isFresh False False now (issueCacheRef st j)}"
    by blast
  have e: "{j \<in> set [0..<length (tabs (config st))]. int j \<noteq> activityTabIndex (config st)
                                \<and> \<not> isFresh False False now (issueCacheRef st j)} = {}"
  proof -
    have "j < length (views (config st))"
      if "j < length (tabs (config st))" "int j \<noteq> activityTabIndex (config st)" for j
      using that by (auto simp: tabs_def activityTabIndex_def split: if_splits)
    with all show ?thesis by auto
  qed
  from new(2) [unfolded e] have "new = []" by simp
  with new(1) fetchAllTabs_remoteCalls [OF run, of doneAt]
  show "remoteCalls (fetchAllTabs env now doneAt False False st) = remoteCalls st" by simp
next
  assume forced: "force \<or> isInitial"
  show "remoteCalls (snd (snd (snd (fetchLoop env now isInitial force [i] (nc, df, st)))))
           = remoteCalls st
             @ (if jiraClient st \<or> hasCredentials env
                then [(i, injectProjectConstraintAtEnd (jql (views (config st) ! i)) (project (config st)))]
                else [])"
  proof (cases "jiraClient st \<or> hasCredentials env")
    case True
    from forced_visit [OF assms forced True] True show ?thesis by simp
  next
    case False
    let ?s1 = "st\<lparr>loadingProgress := loadingText (tabs (config st)) i\<rparr>"
    from False have f: "fetchIssuesForTab env i ?s1 = (Inl missingCredentials, ?s1)"
      by (simp add: fetchIssuesForTab_no_client)
    from fetchLoop_fail [OF view_index_not_activity [OF assms] forced_not_fresh [OF forced] f]
    have "fetchLoop env now isInitial force [i] (nc, df, st) = (Some missingCredentials, nc, df, ?s1)" .
    with False show ?thesis by simp
  qed
next
  assume forced: "force \<or> isInitial"
  show "(i \<in> fst ` set (drop (length (remoteCalls st))
                            (remoteCalls (fetchAllTabs env now doneAt isInitial force st))))
           = ((jiraClient st \<or> hasCredentials env)
              \<and> (\<forall>j < i. \<exists>iss. searchIssues env (length (remoteCalls st) + j)
                      (injectProjectConstraintAtEnd (jql (views (config st) ! j)) (project (config st)))
                    = Inr iss))"
  proof (cases "jiraClient st \<or> hasCredentials env")
    case True
    obtain r nc' df' st' where
      run: "fetchLoop env now isInitial force [0..<length (tabs (config st))] (Map.empty, False, st)
              = (r, nc', df', st')"
      using fetchLoop_result by blast
    from forced_cycle_from [OF forced refl le0 assms True run]
    have "(i \<in> fst ` set (drop (length (remoteCalls st)) (remoteCalls st')))
       = (\<forall>j. 0 \<le> j \<and> j < i \<longrightarrow>
            (\<exists>iss. searchIssues env (length (remoteCalls st) + (j - 0))
                     (injectProjectConstraintAtEnd (jql (views (config st) ! j)) (project (config st)))
                   = Inr iss))"
      by simp
    with True fetchAllTabs_remoteCalls [OF run, of doneAt] show ?thesis by simp
  next
    case False
    with forced_cycle_no_client [OF forced assms, of env now doneAt] show ?thesis by simp
  qed
qed

text \<open>
  The hypotheses of C2 on the configuration of two views and an activity tab, at the time
  1000000: a cache whose first entry is 10 s old and whose second is older than 30 s, and a
  cache whose two entries are fresh. A forced visit of the first view sends its search to a
  service that fails; a forced cycle reaches the second view when the service answers, and
  the first view only when it fails.
\<close>

theorem C2_fresh_or_forced_witness:
  "fetchLoop serviceUp 1000000 False False [0]
       (Map.empty, False, withCache twoViewConfig
           [(0, \<lparr>issues = [issueA], fetchedAt = 990000\<rparr>), (1, \<lparr>issues = [issueA], fetchedAt = 0\<rparr>)])
     = (None, [0 \<mapsto> \<lparr>issues = [issueA], fetchedAt = 990000\<rparr>], False, withCache twoViewConfig
           [(0, \<lparr>issues = [issueA], fetchedAt = 990000\<rparr>), (1, \<lparr>issues = [issueA], fetchedAt = 0\<rparr>)])
   \<and> 0 \<notin> fst ` set (remoteCalls (fetchAllTabs serviceUp 1000000 1000000 False False
        (withCache twoViewConfig
           [(0, \<lparr>issues = [issueA], fetchedAt = 990000\<rparr>), (1, \<lparr>issues = [issueA], fetchedAt = 0\<rparr>)])))
   \<and> issueCache (fetchAllTabs serviceUp 1000000 1000000 False False
        (withCache twoViewConfig
           [(0, \<lparr>issues = [issueA], fetchedAt = 990000\<rparr>), (1, \<lparr>issues = [issueA], fetchedAt = 0\<rparr>)])) 0
       = Some \<lparr>issues = [issueA], fetchedAt = 990000\<rparr>
   \<and> remoteCalls (fetchAllTabs serviceUp 1000000 1000000 False False
        (withCache twoViewConfig
           [(0, \<lparr>issues = [issueA], fetchedAt = 990000\<rparr>), (1, \<lparr>issues = [issueA], fetchedAt = 980000\<rparr>)])) = []
   \<and> remoteCalls (snd (snd (snd (fetchLoop serviceDown 1000000 False True [0]
        (Map.empty, False, withCache twoViewConfig
           [(0, \<lparr>issues = [issueA], fetchedAt = 990000\<rparr>), (1, \<lparr>issues = [issueA], fetchedAt = 0\<rparr>)])))))
       = [(0, u ''(status = Open) AND project = PROJ'')]
   \<and> 1 \<in> fst ` set (remoteCalls (fetchAllTabs serviceUp 1000000 1000000 False True
        (withCache twoViewConfig
           [(0, \<lparr>issues = [issueA], fetchedAt = 990000\<rparr>), (1, \<lparr>issues = [issueA], fetchedAt = 0\<rparr>)])))
   \<and> 0 \<in> fst ` set (remoteCalls (fetchAllTabs serviceDown 1000000 1000000 False True
        (withCache twoViewConfig
           [(0, \<lparr>issues = [issueA], fetchedAt = 990000\<rparr>), (1, \<lparr>issues = [issueA], fetchedAt = 0\<rparr>)])))
   \<and> 1 \<notin> fst ` set (remoteCalls (fetchAllTabs serviceDown 1000000 1000000 False True
        (withCache twoViewConfig
           [(0, \<lparr>issues = [issueA], fetchedAt = 990000\<rparr>), (1, \<lparr>issues = [issueA], fetchedAt = 0\<rparr>)])))"
proof -
  let ?e = "\<lparr>issues = [issueA], fetchedAt = 990000\<rparr>"
  let ?mixed = "withCache twoViewConfig [(0, ?e), (1, \<lparr>issues = [issueA], fetchedAt = 0\<rparr>)]"
  let ?fresh = "withCache twoViewConfig [(0, ?e), (1, \<lparr>issues = [issueA], fetchedAt = 980000\<rparr>)]"
  have lm: "(0::nat) < length (views (config ?mixed))" "(1::nat) < length (views (config ?mixed))"
    by (simp_all add: example_defs)
  have cm: "remoteCalls ?mixed = []" "jiraClient ?mixed"
    "injectProjectConstraintAtEnd (jql (views (config ?mixed) ! 0)) (project (config ?mixed))
       = u ''(status = Open) AND project = PROJ''"
    by (simp_all add: example_defs scoped_open)
  have lf: "(0::nat) < length (views (config ?fresh))" "remoteCalls ?fresh = []"
    by (simp_all add: example_defs)
  have h1: "issueCacheRef ?mixed 0 = Some ?e \<and> issueCache ?mixed 0 = Some ?e
      \<and> (1000000::int) - fetchedAt ?e < 30000"
    by (simp add: example_defs)
  have "\<And>j. j < (2::nat) \<Longrightarrow> j = 0 \<or> j = 1" by auto
  moreover have "isFresh False False 1000000 (issueCacheRef ?fresh 0)"
    "isFresh False False 1000000 (issueCacheRef ?fresh 1)"
    by (simp_all add: example_defs isFresh_def ISSUE_CACHE_TTL_MS_def)
  moreover have "length (views (config ?fresh)) = 2" by (simp add: example_defs)
  ultimately have h2: "\<forall>j < length (views (config ?fresh)). isFresh False False 1000000 (issueCacheRef ?fresh j)"
    by metis
  have up: "\<exists>iss. searchIssues serviceUp n q = Inr iss" for n q
    by (simp add: serviceUp_def)
  from C2_fresh_or_forced [OF lm(1), where e = ?e and now = 1000000 and env = serviceUp
      and doneAt = 1000000 and nc = Map.empty and df = False] h1 cm(1)
  have a: "fetchLoop serviceUp 1000000 False False [0] (Map.empty, False, ?mixed)
             = (None, [0 \<mapsto> ?e], False, ?mixed)"
    "0 \<notin> fst ` set (remoteCalls (fetchAllTabs serviceUp 1000000 1000000 False False ?mixed))"
    "issueCache (fetchAllTabs serviceUp 1000000 1000000 False False ?mixed) 0 = Some ?e"
    by simp_all
  from C2_fresh_or_forced [OF lf(1), where now = 1000000 and env = serviceUp
      and doneAt = 1000000] h2 lf(2)
  have b: "remoteCalls (fetchAllTabs serviceUp 1000000 1000000 False False ?fresh) = []"
    by simp
  from C2_fresh_or_forced [OF lm(1), where now = 1000000 and env = serviceDown
      and doneAt = 1000000 and force = True and isInitial = False
      and nc = Map.empty and df = False] cm
  have c: "remoteCalls (snd (snd (snd (fetchLoop serviceDown 1000000 False True [0]
               (Map.empty, False, ?mixed)))))
             = [(0, u ''(status = Open) AND project = PROJ'')]"
    "0 \<in> fst ` set (remoteCalls (fetchAllTabs serviceDown 1000000 1000000 False True ?mixed))"
    by simp_all
  from C2_fresh_or_forced [OF lm(2), where now = 1000000 and env = serviceUp
      and doneAt = 1000000 and force = True and isInitial = False] cm(1,2) up
  have d: "1 \<in> fst ` set (remoteCalls (fetchAllTabs serviceUp 1000000 1000000 False True ?mixed))"
    by simp
  have down: "searchIssues serviceDown n q \<noteq> Inr iss" for n q iss
    by (simp add: serviceDown_def)
  from C2_fresh_or_forced [OF lm(2), where now = 1000000 and env = serviceDown
      and doneAt = 1000000 and force = True and isInitial = False] cm(1,2) down
  have e: "1 \<notin> fst ` set (remoteCalls (fetchAllTabs serviceDown 1000000 1000000 False True ?mixed))"
    by simp
  from a b c d e show ?thesis by blast
qed

text \<open>
  Claim C2 as stated fails for \<open>isInitial = true\<close>: with \<open>force = false\<close>, the view whose
  entry is 10 s old, fresh by the rule of 30 s, is searched again.
\<close>

theorem C2_counterexample:
  "isFresh False False 1000000
      (issueCacheRef (withCache oneViewConfig [(0, \<lparr>issues = [issueA], fetchedAt = 990000\<rparr>)]) 0)
   \<and> remoteCalls (withCache oneViewConfig [(0, \<lparr>issues = [issueA], fetchedAt = 990000\<rparr>)]) = []
   \<and> remoteCalls (fetchAllTabs serviceUp 1000000 1000000 True False
        (withCache oneViewConfig [(0, \<lparr>issues = [issueA], fetchedAt = 990000\<rparr>)]))
     = [(0, u ''(status = Open) AND project = PROJ'')]"
  by (simp add: fetch_eval example_defs scoped_open isFresh_def ISSUE_CACHE_TTL_MS_def)

lemma scoped_activity: "injectProjectConstraintAtEnd (u ''updated >= -1h'') (u ''PROJ'') = u ''(updated >= -1h) AND project = PROJ''"
  by (simp add: scope_eval)

text \<open>
  Claim C4 on the code. A tick of the 60 s timer whose search fails leaves the cache entry as
  it was, but it logs nothing and sets \<open>error\<close>, so that \<open>App\<close> renders the error box in place
  of the main view. A failing run of the activity poller does what the claim says: one line
  on the console and no error state. The error box stays after a later tick that succeeds,
  since nothing resets \<open>error\<close>.
\<close>

theorem C4_global_refresh_failure:
  "issueCache (fetchAllTabs serviceDown 1000000 1000000 False False
      (withCache oneViewConfig [(0, \<lparr>issues = [issueA], fetchedAt = 0\<rparr>)])) 0
     = Some \<lparr>issues = [issueA], fetchedAt = 0\<rparr>
   \<and> error (fetchAllTabs serviceDown 1000000 1000000 False False
      (withCache oneViewConfig [(0, \<lparr>issues = [issueA], fetchedAt = 0\<rparr>)]))
     = Some (u ''Jira API error: 503 Service Unavailable - '')
   \<and> console (fetchAllTabs serviceDown 1000000 1000000 False False
      (withCache oneViewConfig [(0, \<lparr>issues = [issueA], fetchedAt = 0\<rparr>)])) = []
   \<and> render (withCache oneViewConfig [(0, \<lparr>issues = [issueA], fetchedAt = 0\<rparr>)]) = MainScreen
   \<and> render (fetchAllTabs serviceDown 1000000 1000000 False False
      (withCache oneViewConfig [(0, \<lparr>issues = [issueA], fetchedAt = 0\<rparr>)]))
     = ErrorScreen (u ''Jira API error: 503 Service Unavailable - '')
   \<and> render (fetchAllTabs serviceUp 1060000 1060000 False False
        (fetchAllTabs serviceDown 1000000 1000000 False False
          (withCache oneViewConfig [(0, \<lparr>issues = [issueA], fetchedAt = 0\<rparr>)])))
     = ErrorScreen (u ''Jira API error: 503 Service Unavailable - '')
   \<and> error (fetchActivityIssues serviceDown 1000000 False
      (withCache twoViewConfig [(2, \<lparr>issues = [issueA], fetchedAt = 0\<rparr>)])) = None
   \<and> console (fetchActivityIssues serviceDown 1000000 False
      (withCache twoViewConfig [(2, \<lparr>issues = [issueA], fetchedAt = 0\<rparr>)]))
     = [u ''Activity refresh failed: Jira API error: 503 Service Unavailable - '']"
proof -
  let ?st = "withCache oneViewConfig [(0, \<lparr>issues = [issueA], fetchedAt = 0\<rparr>)]"
  let ?m = "u ''Jira API error: 503 Service Unavailable - ''"
  have run: "fetchAllTabs serviceDown 1000000 1000000 False False ?st
     = ?st\<lparr>loadingProgress := loadingText (tabs (config ?st)) 0,
           remoteCalls := [(0, u ''(status = Open) AND project = PROJ'')],
           error := Some ?m, loading := False\<rparr>"
    by (simp add: fetch_eval example_defs scoped_open)
  have m: "?m \<noteq> []" by (simp add: u_simps)
  have 1: "issueCache (fetchAllTabs serviceDown 1000000 1000000 False False ?st) 0
     = Some \<lparr>issues = [issueA], fetchedAt = 0\<rparr>"
    unfolding run by (simp add: example_defs)
  have 2: "error (fetchAllTabs serviceDown 1000000 1000000 False False ?st) = Some ?m"
    unfolding run by simp
  have 3: "console (fetchAllTabs serviceDown 1000000 1000000 False False ?st) = []"
    unfolding run by (simp add: example_defs)
  have 4: "render ?st = MainScreen" by (simp add: render_def example_defs)
  have 5: "render (fetchAllTabs serviceDown 1000000 1000000 False False ?st) = ErrorScreen ?m"
    unfolding run using m by (simp add: render_def example_defs)
  have 8: "render (fetchAllTabs serviceUp 1060000 1060000 False False
        (fetchAllTabs serviceDown 1000000 1000000 False False ?st)) = ErrorScreen ?m"
    unfolding run using m by (simp add: render_def fetch_eval example_defs scoped_open)
  have 6: "error (fetchActivityIssues serviceDown 1000000 False
      (withCache twoViewConfig [(2, \<lparr>issues = [issueA], fetchedAt = 0\<rparr>)])) = None"
    by (simp add: fetchActivityIssues_def fetch_eval example_defs scoped_activity)
  have 7: "console (fetchActivityIssues serviceDown 1000000 False
      (withCache twoViewConfig [(2, \<lparr>issues = [issueA], fetchedAt = 0\<rparr>)]))
     = [u ''Activity refresh failed: Jira API error: 503 Service Unavailable - '']"
    by (simp add: fetchActivityIssues_def fetch_eval example_defs scoped_activity u_simps)
  from 1 2 3 4 5 6 7 8 show ?thesis by blast
qed

lemma trackLoop_distinct:
  "distinct n \<Longrightarrow> set n \<subseteq> K \<Longrightarrow> distinct (fst (trackLoop iss False (n, K)))"
proof (induction iss arbitrary: n K)
  case Nil
  then show ?case by simp
next
  case (Cons x xs)
  show ?case
  proof (cases "issueId x \<in> K")
    case True
    with Cons.prems have "distinct n" "set n \<subseteq> insert (issueId x) K" by auto
    from Cons.IH [OF this] True show ?thesis by simp
  next
    case False
    with Cons.prems have "distinct (n @ [issueId x])" "set (n @ [issueId x]) \<subseteq> insert (issueId x) K"
      by auto
    from Cons.IH [OF this] False show ?thesis by simp
  qed
qed

lemma fetchActivityIssues_grows: "grows st (fetchActivityIssues env now isInitial st)"
proof (cases "activity (config st)")
  case None
  then show ?thesis by (simp add: fetchActivityIssues_def)
next
  case (Some a)
  show ?thesis
  proof (cases "activityEnabled (config st) \<and> activityTabIndex (config st) \<noteq> - 1 \<and> jiraClient st")
    case False
    with Some show ?thesis by (auto simp add: fetchActivityIssues_def)
  next
    case True
    let ?q = "injectProjectConstraintAtEnd (activityJql a) (project (config st))"
    let ?s1 = "st\<lparr>remoteCalls := remoteCalls st @ [(nat (activityTabIndex (config st)), ?q)]\<rparr>"
    show ?thesis
    proof (cases "searchWithProjectConstraint env (length (remoteCalls st)) (project (config st)) (activityJql a)")
      case (Inl m)
      with Some True show ?thesis
        by (simp add: fetchActivityIssues_def Let_def grows_def)
    next
      case (Inr iss)
      have "grows st ?s1" by (simp add: grows_def)
      moreover have "grows ?s1 (trackNewIssues iss isInitial ?s1)" by (rule grows_track)
      ultimately have "grows st (trackNewIssues iss isInitial ?s1)" by (rule grows_trans)
      then have "grows st ((trackNewIssues iss isInitial ?s1)
          \<lparr>issueCache := (issueCache (trackNewIssues iss isInitial ?s1))
             (nat (activityTabIndex (config st)) \<mapsto> \<lparr>issues = iss, fetchedAt = now\<rparr>)\<rparr>)"
        by (simp add: grows_def)
      with Some True Inr show ?thesis
        by (simp add: fetchActivityIssues_def Let_def)
    qed
  qed
qed

lemma step_grows: "grows st (step e st)"
proof (cases e)
  case (GlobalRefresh env now doneAt)
  then show ?thesis by (simp add: fetchAllTabs_grows)
next
  case (ManualRefresh env now doneAt)
  have "grows st (st\<lparr>loading := True\<rparr>)" by (simp add: grows_def)
  from grows_trans [OF this fetchAllTabs_grows] ManualRefresh show ?thesis by simp
next
  case (InitialLoad env now doneAt)
  then show ?thesis by (simp add: fetchAllTabs_grows)
next
  case (ActivityRefresh env now isInitial)
  then show ?thesis by (simp add: fetchActivityIssues_grows)
next
  case ClearKey
  then show ?thesis by (simp add: clearHighlights_def grows_def)
next
  case (SettingsSave c)
  then show ?thesis by (simp add: handleSettingsSave_def grows_def)
next
  case Rendered
  then show ?thesis by (simp add: syncIssueCacheRef_def grows_def)
qed

lemma run_grows: "grows st (run evs st)"
proof (induction evs arbitrary: st)
  case Nil
  then show ?case by simp
next
  case (Cons e evs)
  from grows_trans [OF step_grows Cons.IH] show ?case by simp
qed

text \<open>
  Claim C3. A fold with \<open>isInitial = true\<close> reports no identifier and adds every identifier
  of the list to the seen-id set. A fold with \<open>isInitial = false\<close> reports, each once, exactly
  the identifiers of the list that were not in the seen-id set before the fold, and adds
  every identifier of the list. The highlighted set is unchanged by the first kind of fold
  and grows by the reported identifiers in the second. Folding \<open>[A, B]\<close> as an initial load
  and then \<open>[A, B, C]\<close> reports \<open>C\<close> alone; folding \<open>[A, B, C]\<close> again reports nothing.
\<close>

theorem C3_new_issue_tracker:
  "fst (trackLoop iss True ([], K)) = []
   \<and> snd (trackLoop iss True ([], K)) = K \<union> issueId ` set iss
   \<and> set (fst (trackLoop iss False ([], K))) = issueId ` set iss - K
   \<and> distinct (fst (trackLoop iss False ([], K)))
   \<and> snd (trackLoop iss False ([], K)) = K \<union> issueId ` set iss
   \<and> newIssueIds (trackNewIssues iss True st) = newIssueIds st
   \<and> newIssueIds (trackNewIssues iss False st) = newIssueIds st \<union> (issueId ` set iss - knownIssueIds st)
   \<and> knownIssueIds (trackNewIssues iss isInitial st) = knownIssueIds st \<union> issueId ` set iss
   \<and> fst (trackLoop [issueA, issueB, issueC] False
             ([], snd (trackLoop [issueA, issueB] True ([], {})))) = [u ''C'']
   \<and> fst (trackLoop [issueA, issueB, issueC] False
             ([], snd (trackLoop [issueA, issueB, issueC] False
                         ([], snd (trackLoop [issueA, issueB] True ([], {})))))) = []
   \<and> newIssueIds (trackNewIssues [issueA, issueB, issueC] False
                    (trackNewIssues [issueA, issueB] True (initialApp c t))) = {u ''C''}"
proof -
  have abc: "u ''A'' \<noteq> u ''B''" "u ''A'' \<noteq> u ''C''" "u ''B'' \<noteq> u ''C''"
    by (simp_all add: u_simps)
  have e1: "fst (trackLoop [issueA, issueB, issueC] False
             ([], snd (trackLoop [issueA, issueB] True ([], {})))) = [u ''C'']"
    using abc by (auto simp add: issueA_def issueB_def issueC_def)
  have e2: "fst (trackLoop [issueA, issueB, issueC] False
             ([], snd (trackLoop [issueA, issueB, issueC] False
                         ([], snd (trackLoop [issueA, issueB] True ([], {})))))) = []"
    using abc by (auto simp add: issueA_def issueB_def issueC_def)
  have e3: "newIssueIds (trackNewIssues [issueA, issueB, issueC] False
                    (trackNewIssues [issueA, issueB] True (initialApp c t))) = {u ''C''}"
    using abc by (auto simp add: trackNewIssues_new issueA_def issueB_def issueC_def initialApp_def)
  have d: "distinct (fst (trackLoop iss False ([], K)))"
    by (rule trackLoop_distinct) simp_all
  show ?thesis
    using e1 e2 e3 d
    by (simp add: trackLoop_initial trackLoop_known trackLoop_new trackNewIssues_new)
qed

text \<open>
  Claim C10. An identifier that is in the seen-id set stays in it through every sequence of
  events of the application, is reported as new by no later fold, and, once the user has
  cleared the highlights, is never highlighted again.
\<close>

theorem C10_seen_never_new_again:
  "iid \<in> knownIssueIds st \<Longrightarrow>
     iid \<notin> set (fst (trackLoop iss isInitial ([], knownIssueIds (run evs st))))
     \<and> iid \<notin> newIssueIds (run evs (clearHighlights st))
     \<and> iid \<in> knownIssueIds (run evs st)"
proof -
  assume k: "iid \<in> knownIssueIds st"
  from run_grows [of st evs] k have k': "iid \<in> knownIssueIds (run evs st)"
    by (auto simp: grows_def)
  from trackLoop_new_any [of iss isInitial "[]" "knownIssueIds (run evs st)"] k'
  have 1: "iid \<notin> set (fst (trackLoop iss isInitial ([], knownIssueIds (run evs st))))" by auto
  have c: "knownIssueIds (clearHighlights st) = knownIssueIds st" "newIssueIds (clearHighlights st) = {}"
    by (simp_all add: clearHighlights_def)
  from run_grows [of "clearHighlights st" evs] c k
  have 2: "iid \<notin> newIssueIds (run evs (clearHighlights st))" by (auto simp: grows_def)
  from 1 2 k' show ?thesis by blast
qed

text \<open>
  The hypothesis of C10 for the issue \<open>A\<close> of a loaded cache, followed by refreshes, a
  settings save and a reload.
\<close>

theorem C10_seen_never_new_again_witness:
  "u ''A'' \<notin> set (fst (trackLoop [issueA, issueC] False
       ([], knownIssueIds (run [GlobalRefresh serviceUp 1000000 1000000, SettingsSave twoViewConfig, Rendered]
                               (withCache oneViewConfig [(0, \<lparr>issues = [issueA], fetchedAt = 0\<rparr>)])))))
   \<and> u ''A'' \<notin> newIssueIds
       (run [Rendered, InitialLoad serviceUp 1000000 1000000, ManualRefresh serviceUp 1000000 1000000]
          (clearHighlights (withCache oneViewConfig [(0, \<lparr>issues = [issueA], fetchedAt = 0\<rparr>)])))"
proof -
  let ?st = "withCache oneViewConfig [(0, \<lparr>issues = [issueA], fetchedAt = 0\<rparr>)]"
  have k: "u ''A'' \<in> knownIssueIds ?st" by (simp add: withCache_def initialApp_def issueA_def)
  from C10_seen_never_new_again [OF k, of "[issueA, issueC]" False
      "[GlobalRefresh serviceUp 1000000 1000000, SettingsSave twoViewConfig, Rendered]"]
    C10_seen_never_new_again [OF k, of "[]" False
      "[Rendered, InitialLoad serviceUp 1000000 1000000, ManualRefresh serviceUp 1000000 1000000]"]
  show ?thesis by blast
qed

text \<open>
  Claim C6. A settings save installs the new configuration, empties the cache (and, with the
  next render, its ref) and the highlighted set, and leaves the seen-id set as it was. No
  sequence of events of the application removes an identifier from the seen-id set; the set
  is empty only in the initial state of the process.
\<close>

theorem C6_settings_commit_keeps_seen_ids:
  "config (handleSettingsSave newConfig st) = newConfig
   \<and> issueCache (handleSettingsSave newConfig st) = Map.empty
   \<and> issueCacheRef (syncIssueCacheRef (handleSettingsSave newConfig st)) = Map.empty
   \<and> newIssueIds (handleSettingsSave newConfig st) = {}
   \<and> knownIssueIds (handleSettingsSave newConfig st) = knownIssueIds st
   \<and> knownIssueIds st \<subseteq> knownIssueIds (run evs st)
   \<and> knownIssueIds (initialApp c t) = {}"
  using run_grows [of st evs]
  by (simp add: handleSettingsSave_def syncIssueCacheRef_def grows_def initialApp_def)

section \<open>Facts about the configuration check and the settings editor\<close>

lemma viewMessages_head: "m \<in> set (viewMessages i v) \<Longrightarrow> \<exists>rest. m = 86 # rest"
  by (auto simp: viewMessages_def Let_def u_simps split: if_splits)

lemma all_viewMessages_head:
  "m \<in> set (concat (map (\<lambda>(index, view). viewMessages index view) (enumerate n vs))) \<Longrightarrow>
   \<exists>rest. m = 86 # rest"
  by (auto dest: viewMessages_head)

lemma activity_messages_not_elsewhere:
  assumes "m = intervalMessage \<or> m = activityJqlMessage"
  shows "m \<notin> set ((if trim (project c) = [] then [u ''Missing project key in config.json.''] else [])
     @ (if trim (domain c) = [] then [u ''Missing domain in config.json.''] else [])
     @ (if length (views c) = 0 then [u ''At least one view is required in config.json.'']
        else concat (map (\<lambda>(index, view). viewMessages index view) (enumerate 0 (views c)))))"
proof -
  from assms have h: "\<exists>rest. m = 65 # 99 # rest"
    by (auto simp: intervalMessage_def activityJqlMessage_def u_simps)
  then have "m \<noteq> u ''Missing project key in config.json.''" "m \<noteq> u ''Missing domain in config.json.''"
    "m \<noteq> u ''At least one view is required in config.json.''"
    by (auto simp: u_simps)
  moreover have "m \<notin> set (concat (map (\<lambda>(index, view). viewMessages index view) (enumerate 0 (views c))))"
  proof
    assume "m \<in> set (concat (map (\<lambda>(index, view). viewMessages index view) (enumerate 0 (views c))))"
    from all_viewMessages_head [OF this] h show False by auto
  qed
  ultimately show ?thesis by auto
qed

lemma messages_differ: "intervalMessage \<noteq> activityJqlMessage"
  by (simp add: intervalMessage_def activityJqlMessage_def u_simps)

text \<open>
  Claim C9. For a configuration whose activity section is present: when it is not enabled,
  \<open>validateConfig\<close> reports what it reports with the section absent, and neither activity
  message, whatever the interval and the query of the section are; when it is enabled, the
  interval message is reported exactly when the interval is not positive, and the query
  message exactly when the query is empty once trimmed.
\<close>

theorem C9_disabled_activity_not_checked:
  assumes "activity c = Some a"
  shows "(\<not> enabled a \<longrightarrow>
            validateConfig c = validateConfig (c\<lparr>activity := None\<rparr>)
            \<and> intervalMessage \<notin> set (validateConfig c)
            \<and> activityJqlMessage \<notin> set (validateConfig c))
         \<and> (enabled a \<longrightarrow>
              (intervalMessage \<in> set (validateConfig c) \<longleftrightarrow> pollingIntervalMinutes a \<le> 0)
              \<and> (activityJqlMessage \<in> set (validateConfig c) \<longleftrightarrow> trim (activityJql a) = []))"
proof (intro conjI impI)
  assume d: "\<not> enabled a"
  with assms show eq: "validateConfig c = validateConfig (c\<lparr>activity := None\<rparr>)"
    by (simp add: validateConfig_def)
  from d assms activity_messages_not_elsewhere [of intervalMessage c]
  show "intervalMessage \<notin> set (validateConfig c)"
    by (simp add: validateConfig_def)
  from d assms activity_messages_not_elsewhere [of activityJqlMessage c]
  show "activityJqlMessage \<notin> set (validateConfig c)"
    by (simp add: validateConfig_def)
next
  assume e: "enabled a"
  from e assms activity_messages_not_elsewhere [of intervalMessage c] messages_differ
  show "intervalMessage \<in> set (validateConfig c) \<longleftrightarrow> pollingIntervalMinutes a \<le> 0"
    by (auto simp: validateConfig_def activityMessages_def Let_def split: if_splits)
  from e assms activity_messages_not_elsewhere [of activityJqlMessage c] messages_differ
  show "activityJqlMessage \<in> set (validateConfig c) \<longleftrightarrow> trim (activityJql a) = []"
    by (auto simp: validateConfig_def activityMessages_def Let_def split: if_splits)
qed


text \<open>
  The hypotheses of C9 on a section with the interval \<open>-3\<close> and an empty query, disabled
  and enabled.
\<close>

theorem C9_disabled_activity_not_checked_witness:
  "validateConfig (oneViewConfig\<lparr>activity := Some \<lparr>enabled = False, pollingIntervalMinutes = - 3,
                                                      activityJql = []\<rparr>\<rparr>)
     = validateConfig (oneViewConfig\<lparr>activity := None\<rparr>)
   \<and> intervalMessage \<notin> set (validateConfig
         (oneViewConfig\<lparr>activity := Some \<lparr>enabled = False, pollingIntervalMinutes = - 3,
                                              activityJql = []\<rparr>\<rparr>))
   \<and> activityJqlMessage \<notin> set (validateConfig
         (oneViewConfig\<lparr>activity := Some \<lparr>enabled = False, pollingIntervalMinutes = - 3,
                                              activityJql = []\<rparr>\<rparr>))
   \<and> intervalMessage \<in> set (validateConfig
         (oneViewConfig\<lparr>activity := Some \<lparr>enabled = True, pollingIntervalMinutes = - 3,
                                              activityJql = []\<rparr>\<rparr>))
   \<and> activityJqlMessage \<in> set (validateConfig
         (oneViewConfig\<lparr>activity := Some \<lparr>enabled = True, pollingIntervalMinutes = - 3,
                                              activityJql = []\<rparr>\<rparr>))"
proof -
  let ?off = "\<lparr>enabled = False, pollingIntervalMinutes = - 3, activityJql = []\<rparr>"
  let ?on = "\<lparr>enabled = True, pollingIntervalMinutes = - 3, activityJql = []\<rparr>"
  have a: "activity (oneViewConfig\<lparr>activity := Some ?off\<rparr>) = Some ?off"
    "activity (oneViewConfig\<lparr>activity := Some ?on\<rparr>) = Some ?on"
    by simp_all
  have off: "\<not> enabled ?off" by simp
  have on: "enabled ?on" "pollingIntervalMinutes ?on \<le> 0" "trim (activityJql ?on) = []"
    by (simp_all add: trim_def)
  have upd: "(oneViewConfig\<lparr>activity := Some ?off\<rparr>)\<lparr>activity := None\<rparr> = oneViewConfig\<lparr>activity := None\<rparr>"
    by simp
  from C9_disabled_activity_not_checked [OF a(1), unfolded upd] off
  have x: "validateConfig (oneViewConfig\<lparr>activity := Some ?off\<rparr>)
             = validateConfig (oneViewConfig\<lparr>activity := None\<rparr>)
           \<and> intervalMessage \<notin> set (validateConfig (oneViewConfig\<lparr>activity := Some ?off\<rparr>))
           \<and> activityJqlMessage \<notin> set (validateConfig (oneViewConfig\<lparr>activity := Some ?off\<rparr>))"
    by blast
  from C9_disabled_activity_not_checked [OF a(2)] on
  have y: "intervalMessage \<in> set (validateConfig (oneViewConfig\<lparr>activity := Some ?on\<rparr>))
           \<and> activityJqlMessage \<in> set (validateConfig (oneViewConfig\<lparr>activity := Some ?on\<rparr>))"
    by blast
  from x y show ?thesis by blast
qed

lemmas key_eval = pressAll.simps press_def handler_def editKey_def named_def openSettings_def
  handleMenuSelect_def handleViewSelect_def handleEditViewSelect_def startEditing_def
  clearEditState_def applyEdit_def onValidated_def insertAtCursor_def registerHandlers_def
  SettingsModal_validateJql_def JiraClient_validateJql_def u_simps Let_def

lemmas number_eval = parseInt_def digits_value_def nearest_double_def bit_count.simps is_digit_def
  js_space_def numberToString_def shortest_value_def shortest_at_def show_nat.simps
  List.map_filter_def upt_rec Let_def u_simps

text \<open>
  \<open>parseInt\<close> reads the digits up to the first other character, and rounds
  \<open>2^53 + 1\<close> to \<open>2^53\<close>; \<open>String\<close> writes a small integer with its digits.
\<close>

lemma parseInt_examples:
  "parseInt (u ''15'') = Some 15"
  "parseInt (u '' -7 minutes'') = Some (- 7)"
  "parseInt (u ''abc'') = None"
  "parseInt (u ''9007199254740993'') = Some 9007199254740992"
  by (simp_all add: number_eval)

lemma numberToString_examples:
  "numberToString 5 = u ''5''"
  "numberToString (- 30) = u ''-30''"
  by (simp_all add: number_eval)

text \<open>
  The activity panel, entered from the menu of a modal opened on the configuration of two
  views: the second effect has registered its handler, which ignores return and escape,
  starts the edit of the activity query on \<open>j\<close> and the edit of the interval on \<open>i\<close>. After
  a render that the parent causes the first handler is back, and return switches the
  activity section off.
\<close>

lemma activity_panel_keys:
  "mode (fst (pressAll serviceUp [named ''down'', named ''down'', named ''return'']
                (openSettings twoViewConfig))) = ModeActivity"
  "activityKeys (fst (pressAll serviceUp [named ''down'', named ''down'', named ''return'']
                        (openSettings twoViewConfig)))"
  "pressAll serviceUp [named ''down'', named ''down'', named ''return'', named ''return'', named ''escape'']
     (openSettings twoViewConfig)
     = pressAll serviceUp [named ''down'', named ''down'', named ''return''] (openSettings twoViewConfig)"
  "editField (fst (pressAll serviceUp [named ''down'', named ''down'', named ''return'', named ''j'']
                     (openSettings twoViewConfig))) = Some FieldActivityJql"
  "editValue (fst (pressAll serviceUp [named ''down'', named ''down'', named ''return'', named ''j'']
                     (openSettings twoViewConfig))) = u ''updated >= -1h''"
  "map_option enabled (activity (editingConfig (fst (press serviceUp (named ''return'')
      (parentRendered (fst (pressAll serviceUp [named ''down'', named ''down'', named ''return'']
                              (openSettings twoViewConfig)))))))) = Some False"
  by (simp_all add: key_eval activityHandler_def handleActivitySelect_def parentRendered_def
        example_defs)

lemma activity_panel_interval_key:
  "editField (fst (pressAll serviceUp [named ''down'', named ''down'', named ''return'', named ''i'']
                     (openSettings twoViewConfig))) = Some FieldInterval"
  "editValue (fst (pressAll serviceUp [named ''down'', named ''down'', named ''return'', named ''i'']
                     (openSettings twoViewConfig))) = u ''5''"
  by (simp_all add: key_eval activityHandler_def example_defs numberToString_examples)

lemma removeView_keeps_a_view: "views c \<noteq> [] \<Longrightarrow> views (removeView choice confirm c) \<noteq> []"
proof -
  assume ne: "views c \<noteq> []"
  show ?thesis
  proof (cases "length (views c) = 1")
    case True
    with ne show ?thesis by (simp add: removeView_def)
  next
    case False
    moreover from ne have "length (views c) \<noteq> 0" by simp
    ultimately have two: "2 \<le> length (views c)" by arith
    have "take (nat choice) (views c) @ drop (nat choice + 1) (views c) \<noteq> []"
      if "nat choice < length (views c)"
    proof (cases "nat choice")
      case 0
      with two show ?thesis by (cases "views c"; cases "tl (views c)") auto
    next
      case (Suc k)
      with ne show ?thesis by (cases "views c") auto
    qed
    with ne show ?thesis by (auto simp: removeView_def)
  qed
qed

lemma d_key:
  "keyName (named ''d'') = u ''d''" "u ''d'' \<noteq> u ''escape''" "u ''d'' \<noteq> u ''up''"
  "u ''d'' \<noteq> u ''k''" "u ''d'' \<noteq> u ''down''" "u ''d'' \<noteq> u ''j''" "u ''d'' \<noteq> u ''return''"
  by (simp_all add: named_def u_simps)

lemma delete_key_removes_view:
  assumes "\<not> validating st" and "editField st = None" and "mode st = ModeViews"
    and "viewIndex st < length (views (editingConfig st))"
  shows "views (editingConfig (fst (handler env (named ''d'') st)))
           = take (viewIndex st) (views (editingConfig st))
             @ drop (viewIndex st + 1) (views (editingConfig st))"
    and "length (views (editingConfig (fst (handler env (named ''d'') st))))
           = length (views (editingConfig st)) - 1"
  using assms by (simp_all add: handler_def d_key Let_def)

text \<open>
  Claim C5 on the code. In the modal opened on a configuration of one view, the keys down,
  return, \<open>d\<close> leave a draft with no view: the handler of \<open>d\<close> has no test on the number of
  views. Followed by escape, down, down, return, they save that draft, which becomes the
  configuration of \<open>App\<close> and which \<open>validateConfig\<close> refuses. \<open>removeView\<close> of the
  configuration wizard refuses to remove the last view.
\<close>

theorem C5_last_view_deleted:
  "views (editingConfig (fst (pressAll serviceUp [named ''down'', named ''return'', named ''d'']
                                 (openSettings oneViewConfig)))) = []
   \<and> snd (pressAll serviceUp
             [named ''down'', named ''return'', named ''d'', named ''escape'',
              named ''down'', named ''down'', named ''return'']
             (openSettings oneViewConfig))
       = OnSave (oneViewConfig\<lparr>views := []\<rparr>)
   \<and> views (config (handleSettingsSave (oneViewConfig\<lparr>views := []\<rparr>)
                       (withCache oneViewConfig []))) = []
   \<and> validateConfig (oneViewConfig\<lparr>views := []\<rparr>)
       = [u ''At least one view is required in config.json.'']
   \<and> removeView 0 True oneViewConfig = oneViewConfig"
proof (intro conjI)
  show "views (editingConfig (fst (pressAll serviceUp [named ''down'', named ''return'', named ''d'']
                                 (openSettings oneViewConfig)))) = []"
    by (simp add: key_eval example_defs)
  show "snd (pressAll serviceUp
             [named ''down'', named ''return'', named ''d'', named ''escape'',
              named ''down'', named ''down'', named ''return'']
             (openSettings oneViewConfig))
       = OnSave (oneViewConfig\<lparr>views := []\<rparr>)"
    by (simp add: key_eval example_defs)
  show "views (config (handleSettingsSave (oneViewConfig\<lparr>views := []\<rparr>)
                       (withCache oneViewConfig []))) = []"
    by (simp add: handleSettingsSave_def)
  show "validateConfig (oneViewConfig\<lparr>views := []\<rparr>)
       = [u ''At least one view is required in config.json.'']"
    by (simp add: validateConfig_def example_defs trim_def js_space_def u_simps)
  show "removeView 0 True oneViewConfig = oneViewConfig"
    by (simp add: removeView_def example_defs)
qed


lemmas service_defs = serviceEmptyMessage_def serviceRejects_def serviceWarns_def

lemma scoped_openx:
  "injectProjectConstraintAtEnd (u ''status = Openx'') (u ''PROJ'') = u ''(status = Openx) AND project = PROJ''"
  by (simp add: scope_eval)

lemma return_key:
  "keyName (named ''return'') = u ''return''" "u ''return'' \<noteq> u ''escape''"
  by (simp_all add: named_def u_simps)

lemma confirming:
  assumes "\<not> validating st" and "\<not> activityKeys st"
  shows "registerHandlers st (st\<lparr>validating := True\<rparr>) = st\<lparr>validating := True\<rparr>"
proof -
  have "validating (st\<lparr>validating := True\<rparr>) \<noteq> validating st" using assms(1) by simp
  then have ne: "st\<lparr>validating := True\<rparr> \<noteq> st" by metis
  have "st\<lparr>validating := True, activityKeys := False\<rparr> = st\<lparr>validating := True\<rparr>"
    using assms(2) by simp
  with ne show ?thesis by (simp add: registerHandlers_def)
qed

lemma confirm_blocked:
  assumes "editField st = Some field" and "field = FieldJql \<or> field = FieldActivityJql"
    and "\<not> validating st" and "\<not> activityKeys st"
    and "SettingsModal_validateJql env (editingConfig st) (editValue st) = Some m" and "m \<noteq> []"
  shows "press env (named ''return'') st = (st\<lparr>validationError := Some m\<rparr>, NoSignal)"
proof -
  let ?st1 = "st\<lparr>validating := True\<rparr>"
  let ?st3 = "st\<lparr>validating := False, validationError := Some m\<rparr>"
  have h: "handler env (named ''return'') st = (?st1, ValidateJql (editValue st))"
    using assms(1,2,3) by (auto simp: handler_def editKey_def return_key)
  have v: "onValidated (SettingsModal_validateJql env (editingConfig st) (editValue st)) ?st1 = ?st3"
    using assms(5,6) by (simp add: onValidated_def)
  have "validating ?st3 \<noteq> validating ?st1" by simp
  then have ne: "?st3 \<noteq> ?st1" by metis
  have e: "?st3\<lparr>activityKeys := False\<rparr> = st\<lparr>validationError := Some m\<rparr>"
    using assms(3,4) by simp
  have "registerHandlers ?st1 ?st3 = ?st3\<lparr>activityKeys := False\<rparr>"
    using ne by (simp add: registerHandlers_def)
  then have r: "registerHandlers ?st1 ?st3 = st\<lparr>validationError := Some m\<rparr>"
    by (simp only: e)
  show ?thesis
    using assms(4) by (simp add: press_def h confirming [OF assms(3,4)] v r Let_def)
qed

lemma confirm_passed:
  assumes "editField st = Some field" and "field = FieldJql \<or> field = FieldActivityJql"
    and "\<not> validating st" and "\<not> activityKeys st"
    and "SettingsModal_validateJql env (editingConfig st) (editValue st) = None
         \<or> SettingsModal_validateJql env (editingConfig st) (editValue st) = Some []"
  shows "press env (named ''return'') st
           = ((applyEdit st)\<lparr>activityKeys := (mode (applyEdit st) = ModeActivity)\<rparr>, NoSignal)"
proof -
  let ?st1 = "st\<lparr>validating := True\<rparr>"
  have h: "handler env (named ''return'') st = (?st1, ValidateJql (editValue st))"
    using assms(1,2,3) by (auto simp: handler_def editKey_def return_key)
  have e: "?st1\<lparr>validating := False\<rparr> = st" using assms(3) by simp
  have v: "onValidated (SettingsModal_validateJql env (editingConfig st) (editValue st)) ?st1
             = applyEdit st"
    using assms(5) by (auto simp: onValidated_def e)
  have f: "editField (applyEdit st) = None"
    using assms(1,2) by (auto simp: applyEdit_def clearEditState_def Let_def)
  have "registerHandlers ?st1 (applyEdit st)
          = (applyEdit st)\<lparr>activityKeys := (mode (applyEdit st) = ModeActivity)\<rparr>"
    using assms(1) f by (simp add: registerHandlers_def)
  then show ?thesis
    using assms(4) by (simp add: press_def h confirming [OF assms(3,4)] v Let_def)
qed

lemma applyEdit_jql:
  assumes "editField st = Some FieldJql" and "mode st = ModeEditView"
    and "viewIndex st < length (views (editingConfig st))"
  shows "views (editingConfig (applyEdit st))
           = (views (editingConfig st))[viewIndex st :=
                (views (editingConfig st) ! viewIndex st)\<lparr>jql := editValue st\<rparr>]"
    and "editField (applyEdit st) = None"
  using assms by (simp_all add: applyEdit_def Let_def clearEditState_def)

lemma applyEdit_activityJql:
  assumes "editField st = Some FieldActivityJql" and "activity (editingConfig st) = Some a"
  shows "activity (editingConfig (applyEdit st)) = Some (a\<lparr>activityJql := editValue st\<rparr>)"
    and "editField (applyEdit st) = None"
  using assms by (simp_all add: applyEdit_def Let_def clearEditState_def activityOrEmpty_def)

lemma validateJql_first_error:
  assumes "hasCredentials env"
    and "parseJql env [injectProjectConstraintAtEnd q (project c)] = Inr (r # rs)"
    and "parsedErrors r = Some (e # es)"
  shows "SettingsModal_validateJql env c q = Some e"
  using assms by (simp add: SettingsModal_validateJql_def JiraClient_validateJql_def)

lemma validateJql_warnings_pass:
  assumes "hasCredentials env"
    and "parseJql env [injectProjectConstraintAtEnd q (project c)] = Inr (r # rs)"
    and "parsedErrors r = None \<or> parsedErrors r = Some []"
  shows "SettingsModal_validateJql env c q = None"
  using assms by (auto simp add: SettingsModal_validateJql_def JiraClient_validateJql_def)

text \<open>
  Claim C7 on the code. The query of the first view is edited to \<open>status = Openx\<close> and
  confirmed. When the service reports an error whose message is the empty string, the
  message the modal gets is empty, \<open>if (error)\<close> is false, and the edited value is committed
  to the draft. When the service reports errors with messages, the draft keeps the prior
  query, the field stays in edit and the first message is shown. When the service accepts
  the query with a warning, the edited value is committed.
\<close>

theorem C7_empty_error_message_commits:
  "SettingsModal_validateJql serviceEmptyMessage oneViewConfig (u ''status = Openx'') = Some []
   \<and> map jql (views (editingConfig (fst (pressAll serviceEmptyMessage
        [named ''down'', named ''return'', named ''return'', named ''down'', named ''return'',
         named ''x'', named ''return'']
        (openSettings oneViewConfig))))) = [u ''status = Openx'']
   \<and> editField (fst (pressAll serviceEmptyMessage
        [named ''down'', named ''return'', named ''return'', named ''down'', named ''return'',
         named ''x'', named ''return'']
        (openSettings oneViewConfig))) = None
   \<and> map jql (views (editingConfig (fst (pressAll serviceRejects
        [named ''down'', named ''return'', named ''return'', named ''down'', named ''return'',
         named ''x'', named ''return'']
        (openSettings oneViewConfig))))) = [u ''status = Open'']
   \<and> editField (fst (pressAll serviceRejects
        [named ''down'', named ''return'', named ''return'', named ''down'', named ''return'',
         named ''x'', named ''return'']
        (openSettings oneViewConfig))) = Some FieldJql
   \<and> validationError (fst (pressAll serviceRejects
        [named ''down'', named ''return'', named ''return'', named ''down'', named ''return'',
         named ''x'', named ''return'']
        (openSettings oneViewConfig))) = Some (u ''Field bogus does not exist.'')
   \<and> map jql (views (editingConfig (fst (pressAll serviceWarns
        [named ''down'', named ''return'', named ''return'', named ''down'', named ''return'',
         named ''x'', named ''return'']
        (openSettings oneViewConfig))))) = [u ''status = Openx'']"
proof -
  let ?keys = "[named ''down'', named ''return'', named ''return'', named ''down'', named ''return'',
         named ''x'']"
  let ?editing = "\<lparr>mode = ModeEditView, menuIndex = Suc 0, viewIndex = 0, fieldIndex = Suc 0,
      editingConfig = oneViewConfig, editField = Some FieldJql, editValue = u ''status = Openx'',
      cursorPos = 14, isNewView = False, validationError = None, validating = False,
      activityKeys = False\<rparr>"
  have c14: "Suc (Suc (Suc (Suc (Suc (Suc (Suc (Suc (Suc (Suc (Suc (Suc (Suc (Suc 0)))))))))))))
      = (14::nat)"
    by simp
  have typed: "pressAll env (?keys @ ks) (openSettings oneViewConfig) = pressAll env ks ?editing" for env ks
    by (simp add: key_eval example_defs c14)
  have v1: "SettingsModal_validateJql serviceEmptyMessage oneViewConfig (u ''status = Openx'') = Some []"
    by (simp add: SettingsModal_validateJql_def JiraClient_validateJql_def service_defs example_defs)
  have v2: "SettingsModal_validateJql serviceRejects oneViewConfig (u ''status = Openx'')
      = Some (u ''Field bogus does not exist.'')"
    by (simp add: SettingsModal_validateJql_def JiraClient_validateJql_def service_defs example_defs)
  have v3: "SettingsModal_validateJql serviceWarns oneViewConfig (u ''status = Openx'') = None"
    by (simp add: SettingsModal_validateJql_def JiraClient_validateJql_def service_defs example_defs)
  have msg: "u ''Field bogus does not exist.'' \<noteq> []" by (simp add: u_simps)
  have h: "editField ?editing = Some FieldJql" "\<not> validating ?editing"
    "editingConfig ?editing = oneViewConfig" "editValue ?editing = u ''status = Openx''"
    by simp_all
  have ae: "(applyEdit ?editing)\<lparr>activityKeys := (mode (applyEdit ?editing) = ModeActivity)\<rparr>
      = applyEdit ?editing"
    by (simp add: applyEdit_def clearEditState_def Let_def)
  have p1: "press serviceEmptyMessage (named ''return'') ?editing = (applyEdit ?editing, NoSignal)"
    using confirm_passed [of ?editing FieldJql serviceEmptyMessage] v1 by (simp add: ae)
  have p2: "press serviceRejects (named ''return'') ?editing
      = (?editing\<lparr>validationError := Some (u ''Field bogus does not exist.'')\<rparr>, NoSignal)"
    using confirm_blocked [of ?editing FieldJql serviceRejects "u ''Field bogus does not exist.''"] v2 msg
    by simp
  have p3: "press serviceWarns (named ''return'') ?editing = (applyEdit ?editing, NoSignal)"
    using confirm_passed [of ?editing FieldJql serviceWarns] v3 by (simp add: ae)
  have ap: "map jql (views (editingConfig (applyEdit ?editing))) = [u ''status = Openx'']"
    "editField (applyEdit ?editing) = None"
    by (simp_all add: applyEdit_def clearEditState_def Let_def example_defs)
  have r1: "fst (pressAll serviceEmptyMessage (?keys @ [named ''return'']) (openSettings oneViewConfig))
      = applyEdit ?editing"
    unfolding typed by (simp add: p1)
  have r2: "fst (pressAll serviceRejects (?keys @ [named ''return'']) (openSettings oneViewConfig))
      = ?editing\<lparr>validationError := Some (u ''Field bogus does not exist.'')\<rparr>"
    unfolding typed by (simp add: p2)
  have r3: "fst (pressAll serviceWarns (?keys @ [named ''return'']) (openSettings oneViewConfig))
      = applyEdit ?editing"
    unfolding typed by (simp add: p3)
  have r2v: "map jql (views (editingConfig (?editing\<lparr>validationError := Some (u ''Field bogus does not exist.'')\<rparr>)))
      = [u ''status = Open'']"
    by (simp add: example_defs)
  from v1 r1 r2 r3 ap r2v show ?thesis by simp
qed


end
